theory Spec2Isabelle
  imports Complex_Main
begin

section \<open>Conventions\<close>

text \<open>
  The C++ sources compute with \<^verbatim>\<open>double\<close> and \<^verbatim>\<open>std::complex<double>\<close>. They are
  embedded as \<^typ>\<open>real\<close> and \<^typ>\<open>complex\<close>: the statements below are about the
  arithmetic the program denotes, without rounding, overflow to infinity or NaN. The
  one exception is the second embedding of the wave function, in binary64 arithmetic
  with rounding after every operation; its constants carry the suffix \<open>_b64\<close>, and it
  is used where exact arithmetic hides what the program does: at the branch cut of
  \<^verbatim>\<open>std::log\<close>.
  \<^verbatim>\<open>std::vector<T>\<close> is a list, \<^verbatim>\<open>int\<close> spin values are \<^typ>\<open>int\<close> (spins are
  \<open>-1\<close> or \<open>1\<close>, so no machine overflow arises), and site or hidden-unit indices
  are \<^typ>\<open>nat\<close>. An index outside a vector is undefined behaviour in C++; the
  theorems carry the hypotheses that keep every index in range.
\<close>

type_synonym spins = "int list"

text \<open>\<^verbatim>\<open>std::vector::resize(n)\<close> with a fill value for the new elements.\<close>

definition resize :: "nat \<Rightarrow> 'a \<Rightarrow> 'a list \<Rightarrow> 'a list" where
  "resize n d xs = take n xs @ replicate (n - length xs) d"

section \<open>The wave function: class \<^verbatim>\<open>Nqs\<close> (nqs.cc)\<close>

text \<open>
  The members \<^verbatim>\<open>W_\<close>, \<^verbatim>\<open>a_\<close>, \<^verbatim>\<open>b_\<close>, \<^verbatim>\<open>nh_\<close>, \<^verbatim>\<open>nv_\<close> and \<^verbatim>\<open>Lt_\<close>
  (an identifier cannot end in an underscore here, hence the prefix).
\<close>

record nqs =
  nqs_W :: "complex list list"
  nqs_a :: "complex list"
  nqs_b :: "complex list"
  nqs_nh :: nat
  nqs_nv :: nat
  nqs_Lt :: "complex list"

text \<open>
  What \<^verbatim>\<open>LoadParameters\<close> establishes: \<^verbatim>\<open>a_.resize(nv_)\<close>, \<^verbatim>\<open>b_.resize(nh_)\<close>,
  \<^verbatim>\<open>W_.resize(nv_, vector(nh_))\<close>.
\<close>

definition loaded :: "nqs \<Rightarrow> bool" where
  "loaded w \<longleftrightarrow>
     length (nqs_a w) = nqs_nv w \<and> length (nqs_b w) = nqs_nh w \<and>
     length (nqs_W w) = nqs_nv w \<and> (\<forall>row \<in> set (nqs_W w). length row = nqs_nh w)"

text \<open>\<^verbatim>\<open>double lncosh(double x)\<close>; \<^verbatim>\<open>log2_\<close> is \<^verbatim>\<open>std::log(2.)\<close>.\<close>

definition lncosh :: "real \<Rightarrow> real" where
  "lncosh x = (let xp = \<bar>x\<bar> in if xp \<le> 12 then ln (cosh xp) else xp - ln 2)"

text \<open>
  \<^verbatim>\<open>std::log\<close> on \<^verbatim>\<open>std::complex<double>\<close>, from the C++ standard library: the
  principal branch, \<open>ln |z| + i arg z\<close>, where \<open>arg z\<close> is \<^verbatim>\<open>atan2(imag, real)\<close>. On the
  negative real axis \<^verbatim>\<open>atan2\<close> looks at the sign of the zero imaginary part: \<open>\<pi>\<close>
  for \<open>+0\<close> and \<open>-\<pi>\<close> for \<open>-0\<close>. A real number has no signed zero, so the sign
  is an argument of its own, \<open>negzero\<close>.
\<close>

definition carg :: "bool \<Rightarrow> complex \<Rightarrow> real" where
  "carg negzero z = (if Im z = 0 \<and> Re z < 0 \<and> negzero then - pi else Arg z)"

definition clog :: "bool \<Rightarrow> complex \<Rightarrow> complex" where
  "clog negzero z = Complex (ln (cmod z)) (carg negzero z)"

text \<open>
  \<^verbatim>\<open>std::complex<double> lncosh(std::complex<double> x)\<close>. The imaginary part handed
  to \<^verbatim>\<open>std::log\<close> is the product \<^verbatim>\<open>tanh(xr)*sin(xi)\<close>. Where the real part
  \<^verbatim>\<open>cos(xi)\<close> is negative, \<^verbatim>\<open>sin(xi)\<close> is not zero, so the product is zero only for
  \<open>xr = 0\<close>; that zero \<open>xr\<close> is read as \<open>+0\<close>, and the product is then \<open>-0\<close> exactly
  when \<^verbatim>\<open>sin(xi)\<close> is negative. (An \<open>xr\<close> of \<open>-0\<close>, which sums and differences
  produce only from negative zeros in the parameter file, is outside the model.)
\<close>

definition lncosh_c :: "complex \<Rightarrow> complex" where
  "lncosh_c x =
     (let xr = Re x; xi = Im x
      in of_real (lncosh xr) + clog (sin xi < 0) (Complex (cos xi) (tanh xr * sin xi)))"

definition LogVal :: "nqs \<Rightarrow> spins \<Rightarrow> complex" where
  "LogVal w state =
     (let rbm = fold (\<lambda>v rbm. rbm + nqs_a w ! v * of_int (state ! v)) [0..<nqs_nv w] 0
      in fold (\<lambda>h rbm.
           let thetah = fold (\<lambda>v thetah. thetah + of_int (state ! v) * (nqs_W w ! v ! h))
                          [0..<nqs_nv w] (nqs_b w ! h)
           in rbm + lncosh_c thetah)
         [0..<nqs_nh w] rbm)"

definition LogPoP :: "nqs \<Rightarrow> spins \<Rightarrow> nat list \<Rightarrow> complex" where
  "LogPoP w state flips =
     (if length flips = 0 then 0
      else
        let logpop = fold (\<lambda>flip logpop. logpop - nqs_a w ! flip * 2 * of_int (state ! flip))
                       flips 0
        in fold (\<lambda>h logpop.
             let thetah = nqs_Lt w ! h;
                 thetahp = fold (\<lambda>flip thetahp.
                                   thetahp - 2 * of_int (state ! flip) * (nqs_W w ! flip ! h))
                             flips thetah
             in logpop + (lncosh_c thetahp - lncosh_c thetah))
           [0..<nqs_nh w] logpop)"

definition PoP :: "nqs \<Rightarrow> spins \<Rightarrow> nat list \<Rightarrow> complex" where
  "PoP w state flips = exp (LogPoP w state flips)"

text \<open>\<^verbatim>\<open>InitLt\<close> and \<^verbatim>\<open>UpdateLt\<close> assign to \<^verbatim>\<open>Lt_[h]\<close> in place.\<close>

definition InitLt :: "nqs \<Rightarrow> spins \<Rightarrow> nqs" where
  "InitLt w state =
     w\<lparr>nqs_Lt :=
         fold (\<lambda>h lt.
                fold (\<lambda>v lt. lt[h := lt ! h + of_int (state ! v) * (nqs_W w ! v ! h)])
                  [0..<nqs_nv w] (lt[h := nqs_b w ! h]))
           [0..<nqs_nh w] (resize (nqs_nh w) 0 (nqs_Lt w))\<rparr>"

definition UpdateLt :: "nqs \<Rightarrow> spins \<Rightarrow> nat list \<Rightarrow> nqs" where
  "UpdateLt w state flips =
     (if length flips = 0 then w
      else w\<lparr>nqs_Lt :=
               fold (\<lambda>h lt.
                      fold (\<lambda>flip lt.
                             lt[h := lt ! h - 2 * of_int (state ! flip) * (nqs_W w ! flip ! h)])
                        flips lt)
                 [0..<nqs_nh w] (nqs_Lt w)\<rparr>)"

text \<open>
  The configuration update of \<^verbatim>\<open>Sampler::Move\<close>:
  \<^verbatim>\<open>for(const auto& flip : flips_){ state_[flip]*=-1; }\<close>.
\<close>

definition flip_spins :: "spins \<Rightarrow> nat list \<Rightarrow> spins" where
  "flip_spins state flips = fold (\<lambda>flip st. st[flip := st ! flip * (- 1)]) flips state"

text \<open>
  The value the specification gives for the lookup table,
  \<open>Lt[h] = b[h] + \<Sum>\<^sub>v state[v] \<cdot> W[v][h]\<close>, and the coherence of the stored table with
  a configuration.
\<close>

definition theta :: "nqs \<Rightarrow> spins \<Rightarrow> nat \<Rightarrow> complex" where
  "theta w state h = nqs_b w ! h + (\<Sum>v<nqs_nv w. of_int (state ! v) * (nqs_W w ! v ! h))"

definition coherent :: "nqs \<Rightarrow> spins \<Rightarrow> bool" where
  "coherent w state \<longleftrightarrow> nqs_Lt w = map (theta w state) [0..<nqs_nh w]"

text \<open>
  A run of accepted moves: each flip set is passed to \<^verbatim>\<open>UpdateLt\<close> with the
  configuration before the flip, then the configuration is flipped at those sites.
\<close>

fun accepted_moves :: "nqs \<times> spins \<Rightarrow> nat list list \<Rightarrow> nqs \<times> spins" where
  "accepted_moves (w, state) [] = (w, state)"
| "accepted_moves (w, state) (flips # rest) =
     accepted_moves (UpdateLt w state flips, flip_spins state flips) rest"

definition flip_set :: "nqs \<Rightarrow> nat list \<Rightarrow> bool" where
  "flip_set w flips \<longleftrightarrow> distinct flips \<and> (\<forall>f \<in> set flips. f < nqs_nv w)"


text \<open>The change \<open>2 \<cdot> \<Sum>\<^sub>f state[f] \<cdot> W[f][h]\<close> that a flip set makes to entry \<open>h\<close>.\<close>

definition flip_delta :: "nqs \<Rightarrow> spins \<Rightarrow> nat list \<Rightarrow> nat \<Rightarrow> complex" where
  "flip_delta w state flips h = 2 * (\<Sum>f\<leftarrow>flips. of_int (state ! f) * (nqs_W w ! f ! h))"

section \<open>The wave function in binary64 arithmetic\<close>

text \<open>
  Rounding of a real number to the nearest binary64 number, ties to the even
  significand (the default rounding of IEEE 754): with \<open>2\<^sup>e \<le> |x| < 2\<^sup>e\<^sup>+\<^sup>1\<close> the
  result is the multiple of \<open>2\<^sup>e\<^sup>-\<^sup>5\<^sup>2\<close> nearest to \<open>x\<close>. The exponent range is not
  bounded: no overflow and no subnormal numbers.
\<close>

definition round_even :: "real \<Rightarrow> int" where
  "round_even y =
     (let f = \<lfloor>y\<rfloor>; d = y - of_int f
      in if d < 1 / 2 then f else if 1 / 2 < d then f + 1 else if even f then f else f + 1)"

definition b64 :: "real \<Rightarrow> real" where
  "b64 x =
     (if x = 0 then 0
      else let e = \<lfloor>log 2 \<bar>x\<bar>\<rfloor>
           in of_int (round_even (x * 2 powr of_int (52 - e))) * 2 powr of_int (e - 52))"

text \<open>
  The operations on \<^verbatim>\<open>double\<close>, and those on \<^verbatim>\<open>std::complex<double>\<close> that the
  wave function uses: sum and difference of two complex numbers and the product of a
  \<^verbatim>\<open>double\<close> with a complex number (in either order), all componentwise.
\<close>

definition fadd :: "real \<Rightarrow> real \<Rightarrow> real" where
  "fadd x y = b64 (x + y)"

definition fsub :: "real \<Rightarrow> real \<Rightarrow> real" where
  "fsub x y = b64 (x - y)"

definition fmul :: "real \<Rightarrow> real \<Rightarrow> real" where
  "fmul x y = b64 (x * y)"

definition cadd :: "complex \<Rightarrow> complex \<Rightarrow> complex" where
  "cadd z w = Complex (fadd (Re z) (Re w)) (fadd (Im z) (Im w))"

definition csub :: "complex \<Rightarrow> complex \<Rightarrow> complex" where
  "csub z w = Complex (fsub (Re z) (Re w)) (fsub (Im z) (Im w))"

definition scale :: "real \<Rightarrow> complex \<Rightarrow> complex" where
  "scale s z = Complex (fmul s (Re z)) (fmul s (Im z))"

text \<open>
  The functions of the C and C++ libraries (\<^verbatim>\<open>cosh\<close>, \<^verbatim>\<open>log\<close>, \<^verbatim>\<open>cos\<close>, \<^verbatim>\<open>sin\<close>,
  \<^verbatim>\<open>tanh\<close>, and the modulus and argument inside \<^verbatim>\<open>std::log\<close>) are taken to return
  the rounded exact value. What is proved from them uses only the sign of the result
  and the relative error \<open>2\<^sup>-\<^sup>5\<^sup>3\<close>.
\<close>

definition lncosh_b64 :: "real \<Rightarrow> real" where
  "lncosh_b64 x =
     (let xp = \<bar>x\<bar> in if xp \<le> 12 then b64 (ln (b64 (cosh xp))) else fsub xp (b64 (ln 2)))"

definition clog_b64 :: "bool \<Rightarrow> complex \<Rightarrow> complex" where
  "clog_b64 negzero z = Complex (b64 (ln (b64 (cmod z)))) (b64 (carg negzero z))"

definition lncosh_c_b64 :: "complex \<Rightarrow> complex" where
  "lncosh_c_b64 x =
     (let xr = Re x; xi = Im x;
          res = Complex (lncosh_b64 xr) 0
      in cadd res (clog_b64 (sin xi < 0)
                     (Complex (b64 (cos xi)) (fmul (b64 (tanh xr)) (b64 (sin xi))))))"

definition LogVal_b64 :: "nqs \<Rightarrow> spins \<Rightarrow> complex" where
  "LogVal_b64 w state =
     (let rbm = fold (\<lambda>v rbm. cadd rbm (scale (of_int (state ! v)) (nqs_a w ! v)))
                  [0..<nqs_nv w] (Complex 0 0)
      in fold (\<lambda>h rbm.
           let thetah = fold (\<lambda>v thetah.
                                cadd thetah (scale (of_int (state ! v)) (nqs_W w ! v ! h)))
                          [0..<nqs_nv w] (nqs_b w ! h)
           in cadd rbm (lncosh_c_b64 thetah))
         [0..<nqs_nh w] rbm)"

definition LogPoP_b64 :: "nqs \<Rightarrow> spins \<Rightarrow> nat list \<Rightarrow> complex" where
  "LogPoP_b64 w state flips =
     (if length flips = 0 then 0
      else
        let logpop = fold (\<lambda>flip logpop.
                             csub logpop (scale (of_int (state ! flip)) (scale 2 (nqs_a w ! flip))))
                       flips (Complex 0 0)
        in fold (\<lambda>h logpop.
             let thetah = nqs_Lt w ! h;
                 thetahp = fold (\<lambda>flip thetahp.
                                   csub thetahp (scale (fmul 2 (of_int (state ! flip)))
                                                   (nqs_W w ! flip ! h)))
                             flips thetah
             in cadd logpop (csub (lncosh_c_b64 thetahp) (lncosh_c_b64 thetah)))
           [0..<nqs_nh w] logpop)"

definition InitLt_b64 :: "nqs \<Rightarrow> spins \<Rightarrow> nqs" where
  "InitLt_b64 w state =
     w\<lparr>nqs_Lt :=
         fold (\<lambda>h lt.
                fold (\<lambda>v lt. lt[h := cadd (lt ! h) (scale (of_int (state ! v)) (nqs_W w ! v ! h))])
                  [0..<nqs_nv w] (lt[h := nqs_b w ! h]))
           [0..<nqs_nh w] (resize (nqs_nh w) 0 (nqs_Lt w))\<rparr>"

section \<open>The Hamiltonians\<close>

subsection \<open>class \<^verbatim>\<open>Ising1d\<close>\<close>

record ising1d =
  ising_nspins :: nat
  ising_hfield :: real
  ising_pbc :: bool
  ising_mel :: "complex list"
  ising_flipsh :: "nat list list"

text \<open>The constructor with \<^verbatim>\<open>Init\<close>.\<close>

definition Ising1d :: "nat \<Rightarrow> real \<Rightarrow> bool \<Rightarrow> ising1d" where
  "Ising1d nspins hfield pbc =
     (let mel = resize (nspins + 1) 0 [];
          flipsh = resize (nspins + 1) [] [];
          (mel, flipsh) =
            fold (\<lambda>i (mel, flipsh). (mel[i + 1 := - of_real hfield], flipsh[i + 1 := [i]]))
              [0..<nspins] (mel, flipsh)
      in \<lparr>ising_nspins = nspins, ising_hfield = hfield, ising_pbc = pbc,
          ising_mel = mel, ising_flipsh = flipsh\<rparr>)"

text \<open>
  \<^verbatim>\<open>FindConn\<close> writes into the two vectors it receives by reference; the model takes
  their old contents and returns the new ones, \<open>(flipsh, mel)\<close>.
\<close>

definition FindConn_ising ::
  "ising1d \<Rightarrow> spins \<Rightarrow> nat list list \<Rightarrow> complex list \<Rightarrow> nat list list \<times> complex list" where
  "FindConn_ising H state flipsh mel =
     (let n = ising_nspins H;
          mel = ising_mel H;
          flipsh = ising_flipsh H;
          mel = mel[0 := 0];
          mel = fold (\<lambda>i mel. mel[0 := mel ! 0 - of_int (state ! i * state ! (i + 1))])
                  [0..<n - 1] mel;
          mel = (if ising_pbc H then mel[0 := mel ! 0 - of_int (state ! (n - 1) * state ! 0)]
                 else mel)
      in (flipsh, mel))"

subsection \<open>class \<^verbatim>\<open>Heisenberg1d\<close> (heisenberg1d.cc)\<close>

record heisenberg1d =
  h1_nspins :: nat
  h1_pbc :: bool
  h1_jz :: real

definition FindConn_h1 ::
  "heisenberg1d \<Rightarrow> spins \<Rightarrow> nat list list \<Rightarrow> complex list \<Rightarrow> nat list list \<times> complex list" where
  "FindConn_h1 H state flipsh mel =
     (let n = h1_nspins H;
          mel = resize 1 0 mel;
          flipsh = resize 1 [] flipsh;
          mel = mel[0 := 0];
          mel = fold (\<lambda>i mel. mel[0 := mel ! 0 + of_int (state ! i * state ! (i + 1))])
                  [0..<n - 1] mel;
          mel = (if h1_pbc H then mel[0 := mel ! 0 + of_int (state ! (n - 1) * state ! 0)]
                 else mel);
          mel = mel[0 := mel ! 0 * of_real (h1_jz H)];
          (flipsh, mel) =
            fold (\<lambda>i (flipsh, mel).
                   if state ! i \<noteq> state ! (i + 1) then (flipsh @ [[i, i + 1]], mel @ [- 2])
                   else (flipsh, mel))
              [0..<n - 1] (flipsh, mel)
      in if h1_pbc H \<and> state ! (n - 1) \<noteq> state ! 0
         then (flipsh @ [[n - 1, 0]], mel @ [- 2]) else (flipsh, mel))"

subsection \<open>class \<^verbatim>\<open>Heisenberg2d\<close>\<close>

text \<open>
  The lattice helpers compute with \<^verbatim>\<open>int\<close>: a neighbour index may be \<open>-1\<close>. They are
  called with \<open>0 \<le> s\<close> and \<open>0 < l\<close>, where the C++ remainder is \<open>mod\<close>.
\<close>

definition PbcH :: "int \<Rightarrow> int \<Rightarrow> int \<Rightarrow> int" where
  "PbcH l nn s =
     (if s mod l = 0 \<and> nn = s - 1 then s + l - 1
      else if (s + 1) mod l = 0 \<and> nn = s + 1 then s - l + 1
      else nn)"

definition PbcV :: "int \<Rightarrow> int \<Rightarrow> int" where
  "PbcV nspins nn =
     (if nn \<ge> nspins then nn - nspins else if nn < 0 then nspins + nn else nn)"

definition H_open :: "int \<Rightarrow> int \<Rightarrow> int \<Rightarrow> int" where
  "H_open l nn s =
     (if s mod l = 0 \<and> nn = s - 1 then - 1
      else if (s + 1) mod l = 0 \<and> nn = s + 1 then - 1
      else nn)"

definition V_open :: "int \<Rightarrow> int \<Rightarrow> int" where
  "V_open nspins nn = (if nn \<ge> nspins then - 1 else if nn < 0 then - 1 else nn)"

text \<open>
  A bond \<^verbatim>\<open>std::vector<int>{i,j}\<close> is pushed only when \<open>i < j\<close>, so both entries are
  site indices; it is kept as the pair \<open>(i, j)\<close>.
\<close>

record heisenberg2d =
  h2_nspins :: nat
  h2_l :: nat
  h2_pbc :: bool
  h2_jz :: real
  h2_nn :: "int list list"
  h2_bonds :: "(nat \<times> nat) list"

datatype error = BadLattice | BadFlips | BadThermFactor | BadSweeps | OddSpins

definition neighbours :: "nat \<Rightarrow> nat \<Rightarrow> bool \<Rightarrow> nat \<Rightarrow> int list" where
  "neighbours nspins l pbc i =
     [if pbc then PbcH (int l) (int i - 1) (int i) else H_open (int l) (int i - 1) (int i),
      if pbc then PbcH (int l) (int i + 1) (int i) else H_open (int l) (int i + 1) (int i),
      if pbc then PbcV (int nspins) (int i - int l) else V_open (int nspins) (int i - int l),
      if pbc then PbcV (int nspins) (int i + int l) else V_open (int nspins) (int i + int l)]"

definition InitLattice :: "heisenberg2d \<Rightarrow> error + heisenberg2d" where
  "InitLattice H =
     (if h2_l H * h2_l H \<noteq> h2_nspins H then Inl BadLattice
      else
        let nn = map (neighbours (h2_nspins H) (h2_l H) (h2_pbc H)) [0..<h2_nspins H];
            bonds = fold (\<lambda>i bonds.
                      fold (\<lambda>k bonds.
                             let j = nn ! i ! k
                             in if int i < j then bonds @ [(i, nat j)] else bonds)
                        [0..<4] bonds)
                      [0..<h2_nspins H] (h2_bonds H)
        in Inr (H\<lparr>h2_nn := nn, h2_bonds := bonds\<rparr>))"

text \<open>The constructor: \<^verbatim>\<open>l_(std::sqrt(nspins_))\<close> truncates the square root to \<^verbatim>\<open>int\<close>.\<close>

definition Heisenberg2d :: "nat \<Rightarrow> real \<Rightarrow> bool \<Rightarrow> error + heisenberg2d" where
  "Heisenberg2d nspins jz pbc =
     InitLattice \<lparr>h2_nspins = nspins, h2_l = nat \<lfloor>sqrt (real nspins)\<rfloor>, h2_pbc = pbc,
                  h2_jz = jz, h2_nn = [], h2_bonds = []\<rparr>"

definition FindConn_h2 ::
  "heisenberg2d \<Rightarrow> spins \<Rightarrow> nat list list \<Rightarrow> complex list \<Rightarrow> nat list list \<times> complex list" where
  "FindConn_h2 H state flipsh mel =
     (let bonds = h2_bonds H;
          mel = resize 1 0 mel;
          flipsh = resize 1 [] flipsh;
          mel = mel[0 := 0];
          mel = fold (\<lambda>i mel.
                  mel[0 := mel ! 0 + of_int (state ! fst (bonds ! i) * state ! snd (bonds ! i))])
                  [0..<length bonds] mel;
          mel = mel[0 := mel ! 0 * of_real (h2_jz H)]
      in fold (\<lambda>i (flipsh, mel).
                let si = fst (bonds ! i); sj = snd (bonds ! i)
                in if state ! si \<noteq> state ! sj then (flipsh @ [[si, sj]], mel @ [- 2])
                   else (flipsh, mel))
           [0..<length bonds] (flipsh, mel))"

subsection \<open>The template parameter \<^verbatim>\<open>Hamiltonian\<close> of the sampler\<close>

datatype hamiltonian = Ising ising1d | Heis1d heisenberg1d | Heis2d heisenberg2d

fun FindConn ::
  "hamiltonian \<Rightarrow> spins \<Rightarrow> nat list list \<Rightarrow> complex list \<Rightarrow> nat list list \<times> complex list" where
  "FindConn (Ising H) state flipsh mel = FindConn_ising H state flipsh mel"
| "FindConn (Heis1d H) state flipsh mel = FindConn_h1 H state flipsh mel"
| "FindConn (Heis2d H) state flipsh mel = FindConn_h2 H state flipsh mel"

fun MinFlips :: "hamiltonian \<Rightarrow> int" where
  "MinFlips (Ising H) = 1"
| "MinFlips (Heis1d H) = 2"
| "MinFlips (Heis2d H) = 2"

subsection \<open>Nearest-neighbour pairs, each undirected pair once\<close>

text \<open>
  The pairs the specification sums over, lower index first; a set holds each pair once.
  On a chain they are \<open>{i, i+1}\<close> and, with periodic boundary, \<open>{n-1, 0}\<close>.
\<close>

definition chain_pairs :: "nat \<Rightarrow> bool \<Rightarrow> (nat \<times> nat) set" where
  "chain_pairs n pbc =
     set (map (\<lambda>i. (i, i + 1)) [0..<n - 1]) \<union> (if pbc \<and> 2 \<le> n then {(0, n - 1)} else {})"

text \<open>
  On the \<open>l\<close> by \<open>l\<close> square lattice, site \<open>i\<close> sits in row \<open>i div l\<close> and column
  \<open>i mod l\<close>. Its left, right, upper and lower neighbours, in this order, are the sites
  one column or one row away, wrapping around the row or the column when the boundary
  is periodic and absent at the border when it is open.
\<close>

definition grid_neighbours :: "nat \<Rightarrow> bool \<Rightarrow> nat \<Rightarrow> nat option list" where
  "grid_neighbours l pbc i =
     (let r = i div l; c = i mod l
      in [if 0 < c then Some (r * l + (c - 1)) else if pbc then Some (r * l + (l - 1)) else None,
          if c + 1 < l then Some (r * l + (c + 1)) else if pbc then Some (r * l) else None,
          if 0 < r then Some ((r - 1) * l + c) else if pbc then Some ((l - 1) * l + c) else None,
          if r + 1 < l then Some ((r + 1) * l + c) else if pbc then Some c else None])"

definition grid_pairs :: "nat \<Rightarrow> bool \<Rightarrow> (nat \<times> nat) set" where
  "grid_pairs l pbc =
     (\<Union>i \<in> {..<l * l}.
        (\<lambda>j. (i, j)) ` {j \<in> set (List.map_filter id (grid_neighbours l pbc i)). i < j})"

definition bond_energy :: "real \<Rightarrow> (nat \<times> nat) set \<Rightarrow> spins \<Rightarrow> complex" where
  "bond_energy jz pairs state =
     of_real jz * (\<Sum>(i, j) \<in> pairs. of_int (state ! i * state ! j))"

definition spin_configuration :: "nat \<Rightarrow> spins \<Rightarrow> bool" where
  "spin_configuration n state \<longleftrightarrow> length state = n \<and> (\<forall>x \<in> set state. x = 1 \<or> x = - 1)"


section \<open>The sampler: class \<^verbatim>\<open>Sampler\<close> (sampler.cc)\<close>

text \<open>
  The random source. \<^verbatim>\<open>std::mt19937\<close> and the two distributions belong to the C++
  standard library; they are parameters of the model: a generator state of any type
  \<open>'g\<close>, \<open>distu\<close> for \<^verbatim>\<open>distu_(gen_)\<close> (a variate in \<open>[0,1)\<close>) and \<open>distn\<close> for
  \<^verbatim>\<open>distn_(gen_)\<close> (a site index in \<open>[0, nspins-1]\<close>), each returning the advanced
  generator.
\<close>

record 'g rng =
  distu :: "'g \<Rightarrow> real \<times> 'g"
  distn :: "'g \<Rightarrow> nat \<times> 'g"

text \<open>
  The members of the sampler. \<^verbatim>\<open>filestates_\<close> is the output file: the lines written
  so far.
\<close>

record 'g sampler =
  smp_wf :: nqs
  smp_hamiltonian :: hamiltonian
  smp_nspins :: nat
  smp_state :: spins
  smp_gen :: 'g
  smp_accept :: real
  smp_nmoves :: real
  smp_flips :: "nat list"
  smp_writestates :: bool
  smp_filestates :: "spins list"
  smp_mel :: "complex list"
  smp_flipsh :: "nat list list"
  smp_energy :: "complex list"

definition Uniform :: "'g rng \<Rightarrow> 'g sampler \<Rightarrow> real \<times> 'g sampler" where
  "Uniform R s = (let (u, g) = distu R (smp_gen s) in (u, s\<lparr>smp_gen := g\<rparr>))"

text \<open>
  \<^verbatim>\<open>RandSpin(flips_, nflips, mag0)\<close>, called with \<open>nflips\<close> 1 or 2. The result is the
  returned flag and the sampler with \<^verbatim>\<open>flips_\<close> and the generator updated.
\<close>

definition RandSpin :: "'g rng \<Rightarrow> nat \<Rightarrow> bool \<Rightarrow> 'g sampler \<Rightarrow> bool \<times> 'g sampler" where
  "RandSpin R nflips mag0 s =
     (let flips = resize nflips 0 (smp_flips s);
          (r0, g) = distn R (smp_gen s);
          flips = flips[0 := r0]
      in if nflips = 2 then
           (let (r1, g) = distn R g;
                flips = flips[1 := r1];
                s' = s\<lparr>smp_flips := flips, smp_gen := g\<rparr>
            in if \<not> mag0 then (flips ! 1 \<noteq> flips ! 0, s')
               else (smp_state s ! (flips ! 1) \<noteq> smp_state s ! (flips ! 0), s'))
         else (True, s\<lparr>smp_flips := flips, smp_gen := g\<rparr>))"

text \<open>
  \<^verbatim>\<open>InitRandomState\<close>. Its two kinds of \<^verbatim>\<open>while\<close> loop end only when the generator
  delivers a suitable site, so they are partial: \<open>None\<close> is a run that never returns.
  For an odd number of spins the source prints an error and calls \<^verbatim>\<open>abort()\<close> (written
  \<^verbatim>\<open>std:abort();\<close>, a label followed by the call).
\<close>

partial_function (option) redraw ::
  "('g \<Rightarrow> nat \<times> 'g) \<Rightarrow> (nat \<Rightarrow> bool) \<Rightarrow> nat \<times> 'g \<Rightarrow> (nat \<times> 'g) option" where
  "redraw D again rg = (if again (fst rg) then redraw D again (D (snd rg)) else Some rg)"

partial_function (option) zero_magnetization ::
  "'g rng \<Rightarrow> nat \<Rightarrow> int \<Rightarrow> spins \<times> 'g \<Rightarrow> (spins \<times> 'g) option" where
  "zero_magnetization R n magt sg =
     (if magt \<noteq> 0 then
        (let state = fst sg; g = snd sg;
             magt = fold (\<lambda>i magt. magt + state ! i) [0..<n] 0
         in if magt > 0 then
              Option.bind (redraw (distn R) (\<lambda>rs. state ! rs < 0) (distn R g))
                (\<lambda>rg. zero_magnetization R n (magt - 1) (state[fst rg := - 1], snd rg))
            else if magt < 0 then
              Option.bind (redraw (distn R) (\<lambda>rs. state ! rs > 0) (distn R g))
                (\<lambda>rg. zero_magnetization R n (magt + 1) (state[fst rg := 1], snd rg))
            else zero_magnetization R n magt sg)
      else Some sg)"

definition InitRandomState ::
  "'g rng \<Rightarrow> bool \<Rightarrow> 'g sampler \<Rightarrow> (error + 'g sampler) option" where
  "InitRandomState R mag0 s =
     (let n = smp_nspins s;
          (state, g) =
            fold (\<lambda>i (state, g).
                   let (u, g) = distu R g
                   in (state[i := (if u < 0.5 then - 1 else 1)], g))
              [0..<n] (resize n 0 (smp_state s), smp_gen s)
      in if mag0 then
           (if n mod 2 \<noteq> 0 then Some (Inl OddSpins)
            else map_option (\<lambda>(state, g). Inr (s\<lparr>smp_state := state, smp_gen := g\<rparr>))
                   (zero_magnetization R n 1 (state, g)))
         else Some (Inr (s\<lparr>smp_state := state, smp_gen := g\<rparr>)))"

definition ResetAv :: "'g sampler \<Rightarrow> 'g sampler" where
  "ResetAv s = s\<lparr>smp_accept := 0, smp_nmoves := 0\<rparr>"

text \<open>
  \<^verbatim>\<open>Move\<close>. The local variable \<^verbatim>\<open>acceptance\<close> is \<^verbatim>\<open>std::norm(wf_.PoP(state_,flips_))\<close>,
  the squared modulus.
\<close>

definition acceptance :: "'g sampler \<Rightarrow> real" where
  "acceptance s = (cmod (PoP (smp_wf s) (smp_state s) (smp_flips s)))\<^sup>2"

definition accept_move :: "'g sampler \<Rightarrow> 'g sampler" where
  "accept_move s =
     s\<lparr>smp_wf := UpdateLt (smp_wf s) (smp_state s) (smp_flips s),
       smp_state := flip_spins (smp_state s) (smp_flips s),
       smp_accept := smp_accept s + 1\<rparr>"

definition Move :: "'g rng \<Rightarrow> nat \<Rightarrow> 'g sampler \<Rightarrow> 'g sampler" where
  "Move R nflips s =
     (let (proposed, s) = RandSpin R nflips True s;
          s = (if proposed then
                 (let acceptance = acceptance s;
                      (u, s) = Uniform R s
                  in if acceptance > u then accept_move s else s)
               else s)
      in s\<lparr>smp_nmoves := smp_nmoves s + 1\<rparr>)"

definition WriteState :: "'g sampler \<Rightarrow> 'g sampler" where
  "WriteState s = s\<lparr>smp_filestates := smp_filestates s @ [smp_state s]\<rparr>"

definition MeasureEnergy :: "'g sampler \<Rightarrow> 'g sampler" where
  "MeasureEnergy s =
     (let (flipsh, mel) = FindConn (smp_hamiltonian s) (smp_state s) (smp_flipsh s) (smp_mel s);
          en = fold (\<lambda>i en. en + PoP (smp_wf s) (smp_state s) (flipsh ! i) * mel ! i)
                 [0..<length flipsh] 0
      in s\<lparr>smp_flipsh := flipsh, smp_mel := mel, smp_energy := smp_energy s @ [en]\<rparr>)"

text \<open>
  \<^verbatim>\<open>OutputEnergy\<close> prints; the model returns the printed quantities.
\<close>

record report =
  estav :: real
  esterror :: real
  rep_nblocks :: nat
  rep_blocksize :: nat
  autocorrelation :: real

text \<open>
  The body of the inner loop over the samples \<open>j\<close> of one block: the block sum and
  the running mean and sum of squared deviations over all samples so far.
\<close>

definition sample_step :: "complex list \<Rightarrow> nat \<Rightarrow> real \<times> real \<times> real \<Rightarrow> real \<times> real \<times> real" where
  "sample_step energy j acc =
     (case acc of (eblock, enmean_unblocked, enmeansq_unblocked) \<Rightarrow>
        let eblock = eblock + Re (energy ! j);
            delta = Re (energy ! j) - enmean_unblocked;
            enmean_unblocked = enmean_unblocked + delta / real (j + 1);
            delta2 = Re (energy ! j) - enmean_unblocked;
            enmeansq_unblocked = enmeansq_unblocked + delta * delta2
        in (eblock, enmean_unblocked, enmeansq_unblocked))"

text \<open>The body of the outer loop over the blocks \<open>i\<close>.\<close>

definition block_step ::
  "complex list \<Rightarrow> nat \<Rightarrow> nat \<Rightarrow> real \<times> real \<times> real \<times> real \<Rightarrow> real \<times> real \<times> real \<times> real" where
  "block_step energy blocksize i acc =
     (case acc of (enmean, enmeansq, enmean_unblocked, enmeansq_unblocked) \<Rightarrow>
        let (eblock, enmean_unblocked, enmeansq_unblocked) =
              fold (sample_step energy) [i * blocksize..<(i + 1) * blocksize]
                (0, enmean_unblocked, enmeansq_unblocked);
            eblock = eblock / real blocksize;
            delta = eblock - enmean;
            enmean = enmean + delta / real (i + 1);
            delta2 = eblock - enmean;
            enmeansq = enmeansq + delta * delta2
        in (enmean, enmeansq, enmean_unblocked, enmeansq_unblocked))"

definition OutputEnergy :: "nat \<Rightarrow> complex list \<Rightarrow> report" where
  "OutputEnergy nspins energy =
     (let nblocks = 50;
          blocksize = length energy div nblocks;
          (enmean, enmeansq, enmean_unblocked, enmeansq_unblocked) =
            fold (block_step energy blocksize) [0..<nblocks] (0, 0, 0, 0);
          enmeansq = enmeansq / real (nblocks - 1);
          enmeansq_unblocked =
            enmeansq_unblocked / of_int (int nblocks * int blocksize - 1);
          estav = enmean / real nspins;
          esterror = sqrt (enmeansq / real nblocks) / real nspins
      in \<lparr>estav = estav, esterror = esterror, rep_nblocks = nblocks,
          rep_blocksize = blocksize,
          autocorrelation = 0.5 * real blocksize * enmeansq / enmeansq_unblocked\<rparr>)"

text \<open>
  A loop \<^verbatim>\<open>for(double n=0; n<bound; n+=1)\<close>: the counter takes the values
  \<open>0, 1, 2, \<dots>\<close>.
\<close>

function for_double :: "real \<Rightarrow> ('s \<Rightarrow> 's) \<Rightarrow> nat \<Rightarrow> 's \<Rightarrow> 's" where
  "for_double bound body n s =
     (if real n < bound then for_double bound body (n + 1) (body s) else s)"
  by pat_completeness auto
termination
  by (relation "measure (\<lambda>(bound, body, n, s). nat \<lceil>bound\<rceil> - n)") (auto, linarith)

declare for_double.simps [simp del]

text \<open>One sweep: \<^verbatim>\<open>for(int i=0;i<nspins_*sweepfactor;i++){ Move(nflips); }\<close>.\<close>

definition sweep :: "'g rng \<Rightarrow> nat \<Rightarrow> int \<Rightarrow> 'g sampler \<Rightarrow> 'g sampler" where
  "sweep R nflips sweepfactor s =
     fold (\<lambda>i s. Move R nflips s) [0..<nat (int (smp_nspins s) * sweepfactor)] s"

text \<open>
  \<^verbatim>\<open>Run\<close>, in its two phases: the consistency checks, which abort or deliver the
  number of flips, and everything after them.
\<close>

definition Run_checks :: "hamiltonian \<Rightarrow> real \<Rightarrow> real \<Rightarrow> int \<Rightarrow> error + nat" where
  "Run_checks H nsweeps thermfactor nflipss =
     (let nflips = (if nflipss = - 1 then MinFlips H else nflipss)
      in if nflips > 2 \<or> nflips < 1 then Inl BadFlips
         else if thermfactor > 1 \<or> thermfactor < 0 then Inl BadThermFactor
         else if nsweeps < 50 then Inl BadSweeps
         else Inr (nat nflips))"

definition measured_sweep :: "'g rng \<Rightarrow> nat \<Rightarrow> int \<Rightarrow> 'g sampler \<Rightarrow> 'g sampler" where
  "measured_sweep R nflips sweepfactor s =
     (let s = sweep R nflips sweepfactor s;
          s = (if smp_writestates s then WriteState s else s)
      in MeasureEnergy s)"

definition Run_sampling ::
  "'g rng \<Rightarrow> nat \<Rightarrow> real \<Rightarrow> real \<Rightarrow> int \<Rightarrow> 'g sampler \<Rightarrow> (error + 'g sampler \<times> report) option" where
  "Run_sampling R nflips nsweeps thermfactor sweepfactor s =
     (case InitRandomState R True s of
        None \<Rightarrow> None
      | Some (Inl e) \<Rightarrow> Some (Inl e)
      | Some (Inr s) \<Rightarrow>
          (let s = s\<lparr>smp_flips := resize nflips 0 (smp_flips s)\<rparr>;
               s = s\<lparr>smp_wf := InitLt (smp_wf s) (smp_state s)\<rparr>;
               s = ResetAv s;
               s = for_double (nsweeps * thermfactor) (sweep R nflips sweepfactor) 0 s;
               s = ResetAv s;
               s = for_double nsweeps (measured_sweep R nflips sweepfactor) 0 s
           in Some (Inr (s, OutputEnergy (smp_nspins s) (smp_energy s)))))"

definition Run ::
  "'g rng \<Rightarrow> real \<Rightarrow> real \<Rightarrow> int \<Rightarrow> int \<Rightarrow> 'g sampler \<Rightarrow> (error + 'g sampler \<times> report) option" where
  "Run R nsweeps thermfactor sweepfactor nflipss s =
     (case Run_checks (smp_hamiltonian s) nsweeps thermfactor nflipss of
        Inl e \<Rightarrow> Some (Inl e)
      | Inr nflips \<Rightarrow> Run_sampling R nflips nsweeps thermfactor sweepfactor s)"

section \<open>Statistics of a sample, as the specification names them\<close>

definition mean :: "real list \<Rightarrow> real" where
  "mean xs = sum_list xs / real (length xs)"

text \<open>The sample variance, with divisor \<open>n - 1\<close>.\<close>

definition sample_variance :: "real list \<Rightarrow> real" where
  "sample_variance xs = (\<Sum>x\<leftarrow>xs. (x - mean xs)\<^sup>2) / (real (length xs) - 1)"

text \<open>
  The retained samples (the first \<open>50 \<cdot> \<lfloor>n/50\<rfloor>\<close> real parts) and the means of
  their 50 contiguous blocks.
\<close>

definition retained :: "complex list \<Rightarrow> real list" where
  "retained energy = take (50 * (length energy div 50)) (map Re energy)"

definition block_means :: "complex list \<Rightarrow> real list" where
  "block_means energy =
     (let blocksize = length energy div 50
      in map (\<lambda>i. mean (take blocksize (drop (i * blocksize) (map Re energy)))) [0..<50])"

text \<open>
  The state of Welford's recurrence after \<open>k\<close> values \<open>X 0, \<dots>, X (k-1)\<close>: the mean,
  and the sum of squares less the squared sum over \<open>k\<close>.
\<close>

definition welford :: "(nat \<Rightarrow> real) \<Rightarrow> nat \<Rightarrow> real \<times> real" where
  "welford X k = ((\<Sum>j<k. X j) / real k, (\<Sum>j<k. (X j)\<^sup>2) - (\<Sum>j<k. X j)\<^sup>2 / real k)"

text \<open>The mean of block \<open>i\<close>, as the outer loop computes it.\<close>

definition block_mean :: "complex list \<Rightarrow> nat \<Rightarrow> nat \<Rightarrow> real" where
  "block_mean energy blocksize i =
     (\<Sum>j = i * blocksize..<(i + 1) * blocksize. Re (energy ! j)) / real blocksize"

section \<open>Notions used in the statements\<close>

text \<open>The \<^verbatim>\<open>int\<close> that \<^verbatim>\<open>nn_\<close> holds for a neighbour: \<open>-1\<close> when there is none.\<close>

definition sentinel :: "nat option \<Rightarrow> int" where
  "sentinel x = (case x of None \<Rightarrow> - 1 | Some j \<Rightarrow> int j)"

text \<open>The bonds \<^verbatim>\<open>InitLattice\<close> pushes for site \<open>i\<close>.\<close>

definition site_bonds :: "nat \<Rightarrow> nat \<Rightarrow> bool \<Rightarrow> nat \<Rightarrow> (nat \<times> nat) list" where
  "site_bonds n l pbc i = map (\<lambda>j. (i, nat j)) (filter (\<lambda>j. int i < j) (neighbours n l pbc i))"

text \<open>The local energy that \<^verbatim>\<open>MeasureEnergy\<close> appends.\<close>

definition local_energy :: "'g sampler \<Rightarrow> complex" where
  "local_energy s =
     (let (flipsh, mel) = FindConn (smp_hamiltonian s) (smp_state s) (smp_flipsh s) (smp_mel s)
      in fold (\<lambda>i en. en + PoP (smp_wf s) (smp_state s) (flipsh ! i) * mel ! i)
           [0..<length flipsh] 0)"




section \<open>Concrete inputs\<close>

text \<open>A wave function with two visible units and one hidden unit.\<close>

definition demo_nqs :: nqs where
  "demo_nqs = \<lparr>nqs_W = [[1], [2]], nqs_a = [1, 2], nqs_b = [3], nqs_nh = 1, nqs_nv = 2,
                nqs_Lt = []\<rparr>"

text \<open>
  A wave function with two visible units and one hidden unit whose parameters are
  binary64 numbers, chosen so that flipping the first of two up spins moves the angle
  of the hidden unit to the imaginary axis from the left: exactly, from
  \<open>1 - 2\<^sup>-\<^sup>5\<^sup>3 + 2i\<close> to \<open>-2\<^sup>-\<^sup>5\<^sup>3 + 2i\<close>.
\<close>

definition cut_nqs :: nqs where
  "cut_nqs = \<lparr>nqs_W = [[Complex (1 / 2) 0], [Complex 1 0]], nqs_a = [Complex 0 0, Complex 0 0],
               nqs_b = [Complex (- (1 / 2) - 1 / 2 ^ 53) 2], nqs_nh = 1, nqs_nv = 2, nqs_Lt = []\<rparr>"

text \<open>
  The periodic 3 by 3 square lattice and the periodic 2 by 2 square lattice, as
  \<^verbatim>\<open>InitLattice\<close> builds them.
\<close>

definition demo_lattice :: heisenberg2d where
  "demo_lattice =
     \<lparr>h2_nspins = 9, h2_l = 3, h2_pbc = True, h2_jz = 1,
      h2_nn = [[2, 1, 6, 3], [0, 2, 7, 4], [1, 0, 8, 5], [5, 4, 0, 6], [3, 5, 1, 7],
               [4, 3, 2, 8], [8, 7, 3, 0], [6, 8, 4, 1], [7, 6, 5, 2]],
      h2_bonds = [(0, 2), (0, 1), (0, 6), (0, 3), (1, 2), (1, 7), (1, 4), (2, 8), (2, 5),
                  (3, 5), (3, 4), (3, 6), (4, 5), (4, 7), (5, 8), (6, 8), (6, 7), (7, 8)]\<rparr>"

definition square_2x2 :: heisenberg2d where
  "square_2x2 =
     \<lparr>h2_nspins = 4, h2_l = 2, h2_pbc = True, h2_jz = 1,
      h2_nn = [[1, 1, 2, 2], [0, 0, 3, 3], [3, 3, 0, 0], [2, 2, 1, 1]],
      h2_bonds = [(0, 1), (0, 1), (0, 2), (0, 2), (1, 3), (1, 3), (2, 3), (2, 3)]\<rparr>"

text \<open>
  A generator that always delivers the variate \<open>1/4\<close> and walks through the two sites
  of a two-spin system.
\<close>

definition demo_rng :: "nat rng" where
  "demo_rng = \<lparr>distu = (\<lambda>g. (1 / 4, g + 1)), distn = (\<lambda>g. (g mod 2, g + 1))\<rparr>"

text \<open>A freshly constructed sampler for two spins and the transverse-field Ising model.\<close>

definition demo_sampler :: "nat sampler" where
  "demo_sampler =
     \<lparr>smp_wf = demo_nqs, smp_hamiltonian = Ising (Ising1d 2 1 True), smp_nspins = 2,
      smp_state = [], smp_gen = 0, smp_accept = 0, smp_nmoves = 0, smp_flips = [],
      smp_writestates = False, smp_filestates = [], smp_mel = [], smp_flipsh = [],
      smp_energy = []\<rparr>"


text \<open>A sampler in the middle of a run, and one whose wave function has visible biases only.\<close>

definition running_sampler :: "nat sampler" where
  "running_sampler =
     demo_sampler\<lparr>smp_wf := demo_nqs\<lparr>nqs_Lt := [2]\<rparr>, smp_state := [1, - 1], smp_gen := 3,
                  smp_flips := [0]\<rparr>"

definition bias_sampler :: "nat sampler" where
  "bias_sampler =
     demo_sampler\<lparr>smp_wf := \<lparr>nqs_W = [[], []], nqs_a = [1, 1], nqs_b = [], nqs_nh = 0,
                              nqs_nv = 2, nqs_Lt = []\<rparr>,
                  smp_state := [- 1, 1], smp_flips := [0]\<rparr>"

text \<open>A hundred energy samples \<open>0, 1, \<dots>, 99\<close>.\<close>

definition demo_energy :: "complex list" where
  "demo_energy = map of_nat [0..<100]"

section \<open>The lookup table follows the configuration\<close>

lemma fold_update_at:
  "fold (\<lambda>x lt. lt[h := F x (lt ! h)]) xs lt = lt[h := fold F xs (lt ! h)]"
proof (cases "h < length lt")
  case True
  then show ?thesis by (induction xs arbitrary: lt) simp_all
next
  case False
  then have "fold (\<lambda>x lt. lt[h := F x (lt ! h)]) xs lt = lt"
    by (induction xs arbitrary: lt) (simp_all add: not_less list_update_beyond)
  with False show ?thesis by (simp add: not_less list_update_beyond)
qed

lemma fold_rows_nth:
  assumes "k \<le> length lt"
  shows "length (fold (\<lambda>h lt. lt[h := f h (lt ! h)]) [0..<k] lt) = length lt \<and>
         (\<forall>i < length lt. fold (\<lambda>h lt. lt[h := f h (lt ! h)]) [0..<k] lt ! i = (if i < k then f i (lt ! i) else lt ! i))"
  using assms by (induction k) (auto simp: nth_list_update)

lemma fold_rows:
  assumes "length lt = n"
  shows "fold (\<lambda>h lt. lt[h := f h (lt ! h)]) [0..<n] lt = map (\<lambda>h. f h (lt ! h)) [0..<n]"
  using fold_rows_nth[of n lt f] assms by (auto intro!: nth_equalityI)

lemma fold_add_sum: "fold (\<lambda>x (acc::complex). acc + g x) xs c = c + sum_list (map g xs)"
  by (induction xs arbitrary: c) (simp_all add: add.assoc)

lemma fold_sub_sum: "fold (\<lambda>x (acc::complex). acc - g x) xs c = c - sum_list (map g xs)"
  by (induction xs arbitrary: c) (simp_all add: algebra_simps)

lemma sum_list_upt_lessThan: "sum_list (map g [0..<n]) = (\<Sum>v<n. g v :: complex)"
  by (simp add: interv_sum_list_conv_sum_set_nat atLeast0LessThan)

lemma fold_add_at:
  "fold (\<lambda>x lt. lt[h := lt ! h + g x]) xs lt = lt[h := lt ! h + sum_list (map g xs :: complex list)]"
  using fold_update_at[where F = "\<lambda>x t. t + g x"] by (simp add: fold_add_sum)

lemma fold_sub_at:
  "fold (\<lambda>x lt. lt[h := lt ! h - g x]) xs lt = lt[h := lt ! h - sum_list (map g xs :: complex list)]"
  using fold_update_at[where F = "\<lambda>x t. t - g x"] by (simp add: fold_sub_sum)

lemma fold_sub_at_fun:
  "fold (\<lambda>x lt. lt[h := lt ! h - g x]) xs = (\<lambda>lt. lt[h := lt ! h - sum_list (map g xs :: complex list)])"
  by (rule ext) (rule fold_sub_at)

lemma update_after_set: "lt[h := (lt[h := x]) ! h + y] = lt[h := x + y]"
  by (cases "h < length lt") (simp_all add: not_less list_update_beyond)

lemma length_resize: "length (resize n d xs) = n"
  by (simp add: resize_def)

lemma InitLt_Lt: "nqs_Lt (InitLt w state) = map (theta w state) [0..<nqs_nh w]"
proof -
  have "nqs_Lt (InitLt w state) =
        fold (\<lambda>h lt. lt[h := (\<lambda>h _. theta w state h) h (lt ! h)]) [0..<nqs_nh w]
          (resize (nqs_nh w) 0 (nqs_Lt w))"
    by (simp add: InitLt_def fold_add_at update_after_set sum_list_upt_lessThan theta_def)
  also have "\<dots> = map (theta w state) [0..<nqs_nh w]"
    by (subst fold_rows[where n = "nqs_nh w"]) (simp_all add: length_resize)
  finally show ?thesis .
qed

lemma UpdateLt_Lt:
  assumes "length (nqs_Lt w) = nqs_nh w"
  shows "nqs_Lt (UpdateLt w state flips) =
         map (\<lambda>h. nqs_Lt w ! h - flip_delta w state flips h) [0..<nqs_nh w]"
proof (cases "flips = []")
  case True
  then show ?thesis using assms
    by (auto simp: UpdateLt_def flip_delta_def intro!: nth_equalityI)
next
  case False
  have "nqs_Lt (UpdateLt w state flips) =
        fold (\<lambda>h lt. lt[h := (\<lambda>h t. t - flip_delta w state flips h) h (lt ! h)]) [0..<nqs_nh w] (nqs_Lt w)"
    using False
    by (simp add: UpdateLt_def fold_sub_at_fun flip_delta_def sum_list_const_mult mult.assoc)
  also have "\<dots> = map (\<lambda>h. nqs_Lt w ! h - flip_delta w state flips h) [0..<nqs_nh w]"
    by (subst fold_rows[where n = "nqs_nh w"]) (simp_all add: assms)
  finally show ?thesis .
qed

lemma UpdateLt_fields [simp]:
  "nqs_W (UpdateLt w s F) = nqs_W w" "nqs_a (UpdateLt w s F) = nqs_a w"
  "nqs_b (UpdateLt w s F) = nqs_b w" "nqs_nh (UpdateLt w s F) = nqs_nh w"
  "nqs_nv (UpdateLt w s F) = nqs_nv w"
  by (simp_all add: UpdateLt_def)

lemma InitLt_fields [simp]:
  "nqs_W (InitLt w s) = nqs_W w" "nqs_a (InitLt w s) = nqs_a w"
  "nqs_b (InitLt w s) = nqs_b w" "nqs_nh (InitLt w s) = nqs_nh w"
  "nqs_nv (InitLt w s) = nqs_nv w"
  by (simp_all add: InitLt_def)

lemma length_flip_spins [simp]: "length (flip_spins state flips) = length state"
  unfolding flip_spins_def by (induction flips arbitrary: state) simp_all

lemma flip_spins_nth:
  assumes "distinct flips" "\<forall>f \<in> set flips. f < length state" "v < length state"
  shows "flip_spins state flips ! v = (if v \<in> set flips then - (state ! v) else state ! v)"
  using assms unfolding flip_spins_def
proof (induction flips arbitrary: state)
  case Nil
  then show ?case by simp
next
  case (Cons f flips)
  have "fold (\<lambda>flip st. st[flip := st ! flip * (- 1)]) flips (state[f := state ! f * (- 1)]) ! v
        = (if v \<in> set flips then - (state[f := state ! f * (- 1)] ! v) else state[f := state ! f * (- 1)] ! v)"
    using Cons.prems by (intro Cons.IH) simp_all
  then show ?case using Cons.prems by (auto simp: nth_list_update)
qed

lemma flipped_sum:
  fixes c :: "nat \<Rightarrow> complex"
  assumes "distinct flips" "\<forall>f \<in> set flips. f < n" "length state = n"
  shows "(\<Sum>v<n. c v * of_int (flip_spins state flips ! v))
         = (\<Sum>v<n. c v * of_int (state ! v)) - 2 * (\<Sum>f\<leftarrow>flips. c f * of_int (state ! f))"
proof -
  let ?g = "\<lambda>v. c v * complex_of_int (state ! v)"
  have sub: "set flips \<subseteq> {..<n}" using assms by auto
  have "(\<Sum>v<n. c v * of_int (flip_spins state flips ! v))
        = (\<Sum>v<n. ?g v - (if v \<in> set flips then 2 * ?g v else 0))"
    using assms by (intro sum.cong) (simp_all add: flip_spins_nth)
  also have "\<dots> = (\<Sum>v<n. ?g v) - (\<Sum>v<n. if v \<in> set flips then 2 * ?g v else 0)"
    by (simp add: sum_subtractf)
  also have "(\<Sum>v<n. if v \<in> set flips then 2 * ?g v else 0) = (\<Sum>v\<in>set flips. 2 * ?g v)"
    using sub by (simp add: sum.If_cases Int_absorb1)
  also have "\<dots> = 2 * (\<Sum>f\<leftarrow>flips. ?g f)"
    using assms(1) by (simp add: sum_list_distinct_conv_sum_set sum_distrib_left)
  finally show ?thesis .
qed

lemma theta_flip:
  assumes "flip_set w flips" "length state = nqs_nv w"
  shows "theta w (flip_spins state flips) h = theta w state h - flip_delta w state flips h"
  using assms flipped_sum[of flips "nqs_nv w" state "\<lambda>v. nqs_W w ! v ! h"]
  by (simp add: theta_def flip_delta_def flip_set_def mult.commute)

lemma theta_UpdateLt [simp]: "theta (UpdateLt w s F) = theta w"
  by (rule ext)+ (simp add: theta_def)

lemma theta_InitLt [simp]: "theta (InitLt w s) = theta w"
  by (rule ext)+ (simp add: theta_def)

lemma flip_delta_UpdateLt [simp]: "flip_delta (UpdateLt w s F) = flip_delta w"
  by (rule ext)+ (simp add: flip_delta_def)

lemma coherent_InitLt: "coherent (InitLt w state) state"
  by (simp add: coherent_def InitLt_Lt)

lemma coherent_length: "coherent w state \<Longrightarrow> length (nqs_Lt w) = nqs_nh w"
  by (simp add: coherent_def)

lemma coherent_step:
  assumes "coherent w state" "flip_set w flips" "length state = nqs_nv w"
  shows "coherent (UpdateLt w state flips) (flip_spins state flips)"
proof -
  have len: "length (nqs_Lt w) = nqs_nh w" using assms(1) by (rule coherent_length)
  have "nqs_Lt (UpdateLt w state flips) = map (\<lambda>h. nqs_Lt w ! h - flip_delta w state flips h) [0..<nqs_nh w]"
    by (rule UpdateLt_Lt[OF len])
  also have "\<dots> = map (theta w (flip_spins state flips)) [0..<nqs_nh w]"
    using assms by (simp add: theta_flip coherent_def)
  finally show ?thesis by (simp add: coherent_def)
qed

lemma flip_set_UpdateLt [simp]: "flip_set (UpdateLt w s F) = flip_set w"
  by (rule ext) (simp add: flip_set_def)

lemma accepted_moves_coherent:
  assumes "coherent w state" "length state = nqs_nv w" "\<forall>flips \<in> set moves. flip_set w flips"
    and "accepted_moves (w, state) moves = (w', state')"
  shows "coherent w' state'"
  using assms
proof (induction moves arbitrary: w state)
  case Nil
  then show ?case by simp
next
  case (Cons flips moves)
  show ?case
  proof (rule Cons.IH)
    show "coherent (UpdateLt w state flips) (flip_spins state flips)"
      using Cons.prems by (intro coherent_step) simp_all
    show "accepted_moves (UpdateLt w state flips, flip_spins state flips) moves = (w', state')"
      using Cons.prems by simp
  qed (use Cons.prems in simp_all)
qed

lemma coherent_iff_InitLt: "coherent w state \<longleftrightarrow> nqs_Lt w = nqs_Lt (InitLt w state)"
  by (simp add: coherent_def InitLt_Lt)

lemma coherent_nth:
  "coherent w state \<Longrightarrow> h < nqs_nh w \<Longrightarrow>
   nqs_Lt w ! h = nqs_b w ! h + (\<Sum>v<nqs_nv w. of_int (state ! v) * (nqs_W w ! v ! h))"
  by (simp add: coherent_def theta_def)

text \<open>
  Claim C1. After \<^verbatim>\<open>InitLt(state)\<close> and any sequence of \<^verbatim>\<open>UpdateLt\<close> calls, each made
  with the configuration before the flip and followed by flipping exactly those
  (distinct, in-range) sites, every entry of the lookup table is
  \<open>b[h] + \<Sum>\<^sub>v state[v] \<cdot> W[v][h]\<close> for the current configuration, and the table
  is the one a fresh \<^verbatim>\<open>InitLt\<close> on the current configuration produces.
\<close>

theorem lookup_table_coherence:
  assumes "loaded w" "length state = nqs_nv w" "\<forall>flips \<in> set moves. flip_set w flips"
    and "accepted_moves (InitLt w state, state) moves = (w', state')"
  shows "length (nqs_Lt w') = nqs_nh w' \<and>
         (\<forall>h < nqs_nh w'. nqs_Lt w' ! h =
             nqs_b w' ! h + (\<Sum>v<nqs_nv w'. of_int (state' ! v) * (nqs_W w' ! v ! h))) \<and>
         nqs_Lt w' = nqs_Lt (InitLt w' state')"
proof -
  have fs: "\<forall>flips \<in> set moves. flip_set (InitLt w state) flips"
    using assms(3) by (simp add: flip_set_def)
  have len: "length state = nqs_nv (InitLt w state)"
    using assms(2) by simp
  have c: "coherent w' state'"
    by (rule accepted_moves_coherent[OF coherent_InitLt len fs assms(4)])
  have "nqs_Lt w' = nqs_Lt (InitLt w' state')"
    using c by (simp only: coherent_iff_InitLt)
  with coherent_length[OF c] coherent_nth[OF c] show ?thesis
    by blast
qed

lemma LogVal_sum:
  "LogVal w state = (\<Sum>v<nqs_nv w. nqs_a w ! v * of_int (state ! v)) + (\<Sum>h<nqs_nh w. lncosh_c (theta w state h))"
  by (simp add: LogVal_def Let_def fold_add_sum sum_list_upt_lessThan theta_def)

lemma sum_list_two_mid:
  "(\<Sum>f\<leftarrow>flips. c f * 2 * (d f :: complex)) = 2 * (\<Sum>f\<leftarrow>flips. c f * d f)"
  by (induction flips) (simp_all add: algebra_simps)

lemma LogPoP_sum:
  assumes "flips \<noteq> []"
  shows "LogPoP w state flips = - (2 * (\<Sum>f\<leftarrow>flips. nqs_a w ! f * of_int (state ! f)))
           + (\<Sum>h<nqs_nh w. lncosh_c (nqs_Lt w ! h - flip_delta w state flips h) - lncosh_c (nqs_Lt w ! h))"
proof -
  have vis: "fold (\<lambda>flip logpop. logpop - nqs_a w ! flip * 2 * of_int (state ! flip)) flips 0
        = - (2 * (\<Sum>f\<leftarrow>flips. nqs_a w ! f * of_int (state ! f)))"
    by (simp only: fold_sub_sum sum_list_two_mid) simp
  have inner: "fold (\<lambda>flip thetahp. thetahp - 2 * of_int (state ! flip) * (nqs_W w ! flip ! h)) flips t
        = t - flip_delta w state flips h" for h t
    by (simp only: fold_sub_sum flip_delta_def mult.assoc sum_list_const_mult)
  show ?thesis
    using assms unfolding LogPoP_def Let_def vis inner
    by (simp add: fold_add_sum sum_list_upt_lessThan)
qed

text \<open>
  Claim C2, amended. In exact real and complex arithmetic, for a configuration whose
  lookup table is coherent with it and a non-empty flip set of distinct sites,
  \<^verbatim>\<open>LogPoP(state, flips)\<close> is \<^verbatim>\<open>LogVal(state') - LogVal(state)\<close>, where \<open>state'\<close> is
  \<open>state\<close> with the spins at the flipped sites negated. (In binary64 arithmetic the
  two can lie on different branches of the logarithm, as shown further down.)
\<close>

theorem LogPoP_is_LogVal_difference:
  assumes "loaded w" "length state = nqs_nv w" "flips \<noteq> []" "flip_set w flips" "coherent w state"
  shows "LogPoP w state flips = LogVal w (flip_spins state flips) - LogVal w state"
proof -
  have vis: "(\<Sum>v<nqs_nv w. nqs_a w ! v * of_int (flip_spins state flips ! v))
             = (\<Sum>v<nqs_nv w. nqs_a w ! v * of_int (state ! v)) - 2 * (\<Sum>f\<leftarrow>flips. nqs_a w ! f * of_int (state ! f))"
    using assms by (intro flipped_sum) (simp_all add: flip_set_def)
  have hid: "(\<Sum>h<nqs_nh w. lncosh_c (nqs_Lt w ! h - flip_delta w state flips h) - lncosh_c (nqs_Lt w ! h))
             = (\<Sum>h<nqs_nh w. lncosh_c (theta w (flip_spins state flips) h)) - (\<Sum>h<nqs_nh w. lncosh_c (theta w state h))"
    using assms by (simp add: sum_subtractf theta_flip coherent_def)
  show ?thesis
    by (simp add: LogPoP_sum[OF assms(3)] LogVal_sum vis hid)
qed

lemma flip_spins_twice:
  assumes "distinct flips" "\<forall>f \<in> set flips. f < length state"
  shows "flip_spins (flip_spins state flips) flips = state"
  using assms by (intro nth_equalityI) (simp_all add: flip_spins_nth)

lemma flip_delta_flipped:
  assumes "flip_set w flips" "length state = nqs_nv w"
  shows "flip_delta w (flip_spins state flips) flips h = - flip_delta w state flips h"
proof -
  have "(\<Sum>f\<leftarrow>flips. complex_of_int (flip_spins state flips ! f) * (nqs_W w ! f ! h))
        = (\<Sum>f\<leftarrow>flips. - (complex_of_int (state ! f) * (nqs_W w ! f ! h)))"
    using assms by (intro arg_cong[where f = sum_list] map_cong) (simp_all add: flip_spins_nth flip_set_def)
  also have "\<dots> = - (\<Sum>f\<leftarrow>flips. complex_of_int (state ! f) * (nqs_W w ! f ! h))"
    by (induction flips) simp_all
  finally show ?thesis by (simp add: flip_delta_def)
qed

text \<open>
  Claim C9. With a coherent lookup table and a flip set of distinct sites:
  \<^verbatim>\<open>UpdateLt\<close> and the flip, followed by \<^verbatim>\<open>UpdateLt\<close> on the flipped
  configuration and the same flip again, give back the original wave function
  (lookup table included) and the original configuration.
\<close>

theorem double_flip_round_trip:
  assumes "loaded w" "length state = nqs_nv w" "flip_set w flips" "coherent w state"
  shows "UpdateLt (UpdateLt w state flips) (flip_spins state flips) flips = w \<and>
         flip_spins (flip_spins state flips) flips = state"
proof -
  have len: "length (nqs_Lt w) = nqs_nh w" using assms(4) by (rule coherent_length)
  have len': "length (nqs_Lt (UpdateLt w state flips)) = nqs_nh (UpdateLt w state flips)"
    by (simp add: UpdateLt_Lt[OF len])
  have "nqs_Lt (UpdateLt (UpdateLt w state flips) (flip_spins state flips) flips) = nqs_Lt w"
    using assms len by (intro nth_equalityI) (simp_all add: UpdateLt_Lt[OF len'] UpdateLt_Lt[OF len] flip_delta_flipped)
  moreover have "UpdateLt (UpdateLt w state flips) (flip_spins state flips) flips
                 = w\<lparr>nqs_Lt := nqs_Lt (UpdateLt (UpdateLt w state flips) (flip_spins state flips) flips)\<rparr>"
    by (simp add: UpdateLt_def)
  ultimately have "UpdateLt (UpdateLt w state flips) (flip_spins state flips) flips = w" by simp
  moreover have "flip_spins (flip_spins state flips) flips = state"
    using assms by (intro flip_spins_twice) (simp_all add: flip_set_def)
  ultimately show ?thesis by simp
qed

subsection \<open>The theorems at a concrete input\<close>

lemma upt_0_2: "[0..<2] = [0, Suc 0]" by (simp add: numeral_2_eq_2)
lemma lessThan_2: "{..<2::nat} = {0, Suc 0}" by (auto simp: numeral_2_eq_2)
lemmas demo_eval = demo_nqs_def upt_0_2 lessThan_2

theorem lookup_table_coherence_witness:
  "loaded demo_nqs \<and> length [1, - 1 :: int] = nqs_nv demo_nqs \<and>
   flip_set demo_nqs [0] \<and> flip_set demo_nqs [1, 0] \<and>
   accepted_moves (InitLt demo_nqs [1, - 1], [1, - 1]) [[0], [1, 0]] = (demo_nqs\<lparr>nqs_Lt := [6]\<rparr>, [1, 1]) \<and>
   nqs_Lt (demo_nqs\<lparr>nqs_Lt := [6]\<rparr>) = nqs_Lt (InitLt (demo_nqs\<lparr>nqs_Lt := [6]\<rparr>) [1, 1])"
proof -
  have h1: "loaded demo_nqs" by (simp add: loaded_def demo_eval)
  have h2: "length [1, - 1 :: int] = nqs_nv demo_nqs" by (simp add: demo_eval)
  have h3: "\<forall>flips \<in> set [[0], [1, 0]]. flip_set demo_nqs flips" by (simp add: flip_set_def demo_eval)
  have h4: "accepted_moves (InitLt demo_nqs [1, - 1], [1, - 1]) [[0], [1, 0]] = (demo_nqs\<lparr>nqs_Lt := [6]\<rparr>, [1, 1])"
    by (simp add: demo_eval InitLt_def UpdateLt_def flip_spins_def resize_def)
  have h3': "flip_set demo_nqs [0] \<and> flip_set demo_nqs [1, 0]" using h3 by simp
  show ?thesis
    using lookup_table_coherence[OF h1 h2 h3 h4] h1 h2 h3' h4 by blast
qed

theorem LogPoP_is_LogVal_difference_witness:
  "loaded (demo_nqs\<lparr>nqs_Lt := [2]\<rparr>) \<and> length [1, - 1 :: int] = nqs_nv (demo_nqs\<lparr>nqs_Lt := [2]\<rparr>) \<and>
   [1, 0] \<noteq> ([] :: nat list) \<and> flip_set (demo_nqs\<lparr>nqs_Lt := [2]\<rparr>) [1, 0] \<and>
   coherent (demo_nqs\<lparr>nqs_Lt := [2]\<rparr>) [1, - 1] \<and>
   LogPoP (demo_nqs\<lparr>nqs_Lt := [2]\<rparr>) [1, - 1] [1, 0] =
     LogVal (demo_nqs\<lparr>nqs_Lt := [2]\<rparr>) [- 1, 1] - LogVal (demo_nqs\<lparr>nqs_Lt := [2]\<rparr>) [1, - 1]"
proof -
  let ?w = "demo_nqs\<lparr>nqs_Lt := [2]\<rparr>"
  have h1: "loaded ?w" by (simp add: loaded_def demo_eval)
  have h2: "length [1, - 1 :: int] = nqs_nv ?w" by (simp add: demo_eval)
  have h3: "[1, 0] \<noteq> ([] :: nat list)" by simp
  have h4: "flip_set ?w [1, 0]" by (simp add: flip_set_def demo_eval)
  have h5: "coherent ?w [1, - 1]" by (simp add: coherent_def theta_def demo_eval)
  have f: "flip_spins [1, - 1] [1, 0] = [- 1, 1]" by (simp add: flip_spins_def)
  show ?thesis
    using LogPoP_is_LogVal_difference[OF h1 h2 h3 h4 h5] h1 h2 h3 h4 h5 unfolding f by blast
qed

theorem double_flip_round_trip_witness:
  "loaded (demo_nqs\<lparr>nqs_Lt := [2]\<rparr>) \<and> length [1, - 1 :: int] = nqs_nv (demo_nqs\<lparr>nqs_Lt := [2]\<rparr>) \<and>
   flip_set (demo_nqs\<lparr>nqs_Lt := [2]\<rparr>) [1, 0] \<and>
   coherent (demo_nqs\<lparr>nqs_Lt := [2]\<rparr>) [1, - 1] \<and>
   UpdateLt (demo_nqs\<lparr>nqs_Lt := [2]\<rparr>) [1, - 1] [1, 0] = demo_nqs\<lparr>nqs_Lt := [4]\<rparr> \<and>
   UpdateLt (demo_nqs\<lparr>nqs_Lt := [4]\<rparr>) [- 1, 1] [1, 0] = demo_nqs\<lparr>nqs_Lt := [2]\<rparr> \<and>
   flip_spins [- 1, 1] [1, 0] = [1, - 1]"
proof -
  let ?w = "demo_nqs\<lparr>nqs_Lt := [2]\<rparr>"
  have h1: "loaded ?w" by (simp add: loaded_def demo_eval)
  have h2: "length [1, - 1 :: int] = nqs_nv ?w" by (simp add: demo_eval)
  have h4: "flip_set ?w [1, 0]" by (simp add: flip_set_def demo_eval)
  have h5: "coherent ?w [1, - 1]" by (simp add: coherent_def theta_def demo_eval)
  have f: "flip_spins [1, - 1] [1, 0] = [- 1, 1]" by (simp add: flip_spins_def)
  have u: "UpdateLt ?w [1, - 1] [1, 0] = demo_nqs\<lparr>nqs_Lt := [4]\<rparr>"
    by (simp add: UpdateLt_def demo_eval)
  show ?thesis
    using double_flip_round_trip[OF h1 h2 h4 h5] h1 h2 h4 h5 unfolding f u by simp
qed

section \<open>The amplitude ratio in binary64 arithmetic\<close>

lemma round_even_bound: "\<bar>of_int (round_even y) - y\<bar> \<le> 1 / 2"
  unfolding round_even_def Let_def by (auto; linarith)

lemma round_even_of_int [simp]: "round_even (of_int m) = m"
  by (simp add: round_even_def)

lemma b64_0 [simp]: "b64 0 = 0"
  by (simp add: b64_def)

lemma b64_eval:
  assumes "x \<noteq> 0" "2 powr of_int e \<le> \<bar>x\<bar>" "\<bar>x\<bar> < 2 powr (of_int e + 1)"
  shows "b64 x = of_int (round_even (x * 2 powr of_int (52 - e))) * 2 powr of_int (e - 52)"
proof -
  have "\<lfloor>log 2 \<bar>x\<bar>\<rfloor> = e"
    using assms by (subst floor_log_eq_powr_iff) (simp_all add: add.commute)
  then show ?thesis using assms(1) by (simp add: b64_def Let_def)
qed

lemma b64_error: "\<bar>b64 x - x\<bar> \<le> \<bar>x\<bar> / 2 ^ 53"
proof (cases "x = 0")
  case True
  then show ?thesis by simp
next
  case False
  define e where "e = \<lfloor>log 2 \<bar>x\<bar>\<rfloor>"
  define p :: real where "p = 2 powr of_int (e - 52)"
  have p: "0 < p" by (simp add: p_def)
  have q: "2 powr of_int (52 - e) = 1 / p"
  proof -
    have "2 powr of_int (e - 52) * 2 powr of_int (52 - e) = (1::real)"
      by (simp add: powr_add[symmetric])
    then show ?thesis unfolding p_def by (simp add: field_simps)
  qed
  have le: "2 powr of_int e \<le> \<bar>x\<bar>"
    using False floor_log_eq_powr_iff[of "\<bar>x\<bar>" 2 e] by (simp add: e_def)
  have pe: "p = 2 powr of_int e / 2 ^ 52"
    unfolding p_def by (simp add: powr_diff)
  have b0: "b64 x = of_int (round_even (x * 2 powr of_int (52 - e))) * 2 powr of_int (e - 52)"
    using False by (simp add: b64_def e_def Let_def)
  have "b64 x = of_int (round_even (x * (1 / p))) * p"
    by (simp only: b0 q p_def[symmetric])
  then have b: "b64 x = of_int (round_even (x / p)) * p" by simp
  have "b64 x - x = (of_int (round_even (x / p)) - x / p) * p"
    using p by (simp add: b field_simps)
  then have "\<bar>b64 x - x\<bar> = \<bar>of_int (round_even (x / p)) - x / p\<bar> * p"
    using p by (simp add: abs_mult)
  also have "\<dots> \<le> 1 / 2 * p"
    using round_even_bound[of "x / p"] p by (intro mult_right_mono) simp_all
  also have "\<dots> = 2 powr of_int e / 2 ^ 53" by (simp add: pe)
  also have "\<dots> \<le> \<bar>x\<bar> / 2 ^ 53" using le by (simp add: divide_right_mono)
  finally show ?thesis .
qed

lemma b64_neg: "x < 0 \<Longrightarrow> b64 x < 0"
  using b64_error[of x] by (simp add: abs_if split: if_splits)

lemma b64_pos: "0 < x \<Longrightarrow> 0 < b64 x"
  using b64_error[of x] by (simp add: abs_if split: if_splits)

text \<open>Numbers with at most 53 significant bits are not changed.\<close>

lemma b64_exact:
  assumes "2 powr of_int e \<le> \<bar>x\<bar>" "\<bar>x\<bar> < 2 powr (of_int e + 1)"
    "x * 2 powr of_int (52 - e) = of_int m"
  shows "b64 x = x"
proof -
  have x: "x \<noteq> 0" using assms(1) by (auto simp: not_le[symmetric])
  have r: "round_even (x * 2 powr of_int (52 - e)) = m"
    by (simp only: assms(3) round_even_of_int)
  have "b64 x = x * 2 powr of_int (52 - e) * 2 powr of_int (e - 52)"
    by (simp only: b64_eval[OF x assms(1,2)] r assms(3)[symmetric])
  also have "\<dots> = x * (2 powr of_int (52 - e) * 2 powr of_int (e - 52))" by simp
  also have "2 powr of_int (52 - e) * 2 powr of_int (e - 52) = (1::real)"
    by (simp add: powr_add[symmetric])
  finally show ?thesis by simp
qed

lemma b64_1 [simp]: "b64 1 = 1"
  by (rule b64_exact[where e = 0 and m = "2 ^ 52"]) simp_all

lemma b64_m1 [simp]: "b64 (- 1) = - 1"
  by (rule b64_exact[where e = 0 and m = "- (2 ^ 52)"]) simp_all

lemma b64_2 [simp]: "b64 2 = 2"
  by (rule b64_exact[where e = 1 and m = "2 ^ 52"]) simp_all

lemma b64_half [simp]: "b64 (1 / 2) = 1 / 2"
  by (rule b64_exact[where e = "- 1" and m = "2 ^ 52"]) (simp_all add: powr_neg_numeral powr_minus)

lemma b64_mhalf [simp]: "b64 (- (1 / 2)) = - (1 / 2)"
  by (rule b64_exact[where e = "- 1" and m = "- (2 ^ 52)"]) (simp_all add: powr_neg_numeral powr_minus)

lemma pi_ge_3: "3 \<le> pi"
proof -
  have "sin (pi / 6) \<le> pi / 6" by (rule sin_x_le_x) simp
  then show ?thesis by (simp add: sin_30)
qed

lemma Arg_negative_real: "c < 0 \<Longrightarrow> Arg (Complex c 0) = pi"
proof (rule cis_Arg_unique)
  assume c: "c < 0"
  have "Complex c 0 = of_real c" by (simp add: complex_eq_iff)
  then show "sgn (Complex c 0) = cis pi" using c by (simp add: sgn_eq)
qed (use pi_gt_zero in simp_all)

lemma Arg_third_quadrant:
  assumes "Re z < 0" "Im z < 0"
  shows "Arg z < - (pi / 2)"
proof -
  have z: "z \<noteq> 0" using assms by auto
  then have n: "0 < cmod z" by simp
  have s: "sin (Arg z) < 0" using assms n by (simp add: sin_Arg[OF z] divide_neg_pos)
  have c: "cos (Arg z) < 0" using assms n by (simp add: cos_Arg[OF z] divide_neg_pos)
  have b: "- pi < Arg z" "Arg z \<le> pi" using Arg_bounded[of z] by auto
  have "Arg z < 0" using s sin_ge_zero[of "Arg z"] b by force
  then show ?thesis using c cos_ge_zero[of "Arg z"] by force
qed

lemma carg_bounded: "- pi \<le> carg nz z \<and> carg nz z \<le> pi"
  using Arg_bounded[of z] by (simp add: carg_def)

lemma b64_near16: "\<bar>x\<bar> \<le> 16 \<Longrightarrow> \<bar>b64 x - x\<bar> \<le> 1 / 1000"
proof -
  assume a: "\<bar>x\<bar> \<le> 16"
  have "\<bar>x\<bar> / 2 ^ 53 \<le> 16 / 2 ^ 53" using a by (simp add: divide_right_mono)
  then show ?thesis using b64_error[of x] by simp
qed

lemma b64_tiny [simp]: "b64 (- (1 / 2 ^ 53)) = - (1 / 2 ^ 53)"
  by (rule b64_exact[where e = "- 53" and m = "- (2 ^ 52)"])
     (simp_all add: powr_neg_numeral powr_minus)

lemma b64_below_one [simp]: "b64 (1 - 1 / 2 ^ 53) = 1 - 1 / 2 ^ 53"
  by (rule b64_exact[where e = "- 1" and m = "2 ^ 53 - 1"])
     (simp_all add: powr_neg_numeral powr_minus)

lemma b64_tie [simp]: "b64 (- 1 - 1 / 2 ^ 53) = - 1"
proof -
  have e: "b64 (- 1 - 1 / 2 ^ 53) =
          of_int (round_even ((- 1 - 1 / 2 ^ 53) * 2 powr of_int (52 - 0))) * 2 powr of_int (0 - 52)"
    by (rule b64_eval) simp_all
  have y: "(- 1 - 1 / 2 ^ 53) * 2 powr of_int (52 - 0) = (- (2 ^ 52) - 1 / 2 :: real)" by simp
  have fl: "\<lfloor>- (2 ^ 52) - 1 / 2 :: real\<rfloor> = - (2 ^ 52) - 1" by (simp add: floor_eq_iff)
  have r: "round_even (- (2 ^ 52) - 1 / 2) = - (2 ^ 52)"
    unfolding round_even_def Let_def fl by simp
  show ?thesis unfolding e y r by (simp add: powr_neg_numeral powr_minus)
qed

lemma b64_numerals:
  "b64 (- (1 / 9007199254740992)) = - (1 / 9007199254740992)"
  "b64 (9007199254740991 / 9007199254740992) = 9007199254740991 / 9007199254740992"
  "b64 (- (9007199254740993 / 9007199254740992)) = - 1"
  using b64_tiny b64_below_one b64_tie by simp_all

lemmas b64_ops = cadd_def csub_def scale_def fadd_def fsub_def fmul_def b64_numerals Let_def

lemma cut_InitLt:
  "nqs_Lt (InitLt_b64 cut_nqs [1, 1]) = [Complex (1 - 1 / 2 ^ 53) 2]"
  by (simp add: InitLt_b64_def cut_nqs_def upt_0_2 resize_def b64_ops)

lemma cut_LogVal:
  "LogVal_b64 (InitLt_b64 cut_nqs [1, 1]) [1, 1] = cadd (Complex 0 0) (lncosh_c_b64 (Complex (1 - 1 / 2 ^ 53) 2))"
  by (simp add: LogVal_b64_def InitLt_b64_def cut_nqs_def upt_0_2 b64_ops)

lemma cut_LogVal_flipped:
  "LogVal_b64 (InitLt_b64 cut_nqs [1, 1]) [- 1, 1] = cadd (Complex 0 0) (lncosh_c_b64 (Complex 0 2))"
  by (simp add: LogVal_b64_def InitLt_b64_def cut_nqs_def upt_0_2 b64_ops)

lemma cut_LogPoP:
  "LogPoP_b64 (InitLt_b64 cut_nqs [1, 1]) [1, 1] [0] =
     cadd (Complex 0 0) (csub (lncosh_c_b64 (Complex (- (1 / 2 ^ 53)) 2))
                              (lncosh_c_b64 (Complex (1 - 1 / 2 ^ 53) 2)))"
  by (simp add: LogPoP_b64_def cut_InitLt)
     (simp add: InitLt_b64_def cut_nqs_def b64_ops)

lemma lncosh_c_b64_Im:
  "Im (lncosh_c_b64 x) =
     b64 (b64 (carg (sin (Im x) < 0)
                 (Complex (b64 (cos (Im x))) (b64 (b64 (tanh (Re x)) * b64 (sin (Im x)))))))"
  by (simp add: lncosh_c_b64_def clog_b64_def cadd_def fadd_def fmul_def Let_def)

lemma sin_2_pos: "0 < sin (2::real)"
  using pi_ge_3 by (intro sin_gt_zero) simp_all

lemma b64_b64_near:
  assumes "\<bar>x\<bar> \<le> 8"
  shows "\<bar>b64 (b64 x) - x\<bar> \<le> 2 / 1000"
proof -
  have 1: "\<bar>b64 x - x\<bar> \<le> 1 / 1000" using assms by (intro b64_near16) simp
  then have "\<bar>b64 x\<bar> \<le> 16" using assms by linarith
  then have "\<bar>b64 (b64 x) - b64 x\<bar> \<le> 1 / 1000" by (rule b64_near16)
  with 1 show ?thesis by linarith
qed

lemma lncosh_c_b64_Im_bounded: "\<bar>Im (lncosh_c_b64 x)\<bar> \<le> pi + 2 / 1000"
proof -
  define t where "t = carg (sin (Im x) < 0)
                 (Complex (b64 (cos (Im x))) (b64 (b64 (tanh (Re x)) * b64 (sin (Im x)))))"
  have t: "\<bar>t\<bar> \<le> pi"
    unfolding t_def
    using carg_bounded[of "sin (Im x) < 0"
        "Complex (b64 (cos (Im x))) (b64 (b64 (tanh (Re x)) * b64 (sin (Im x))))"]
    by linarith
  then have "\<bar>t\<bar> \<le> 8" using pi_less_4 by linarith
  from b64_b64_near[OF this] t show ?thesis
    unfolding lncosh_c_b64_Im t_def[symmetric] by linarith
qed

lemma cut_Im_on_cut: "pi - 2 / 1000 \<le> Im (lncosh_c_b64 (Complex 0 2))"
proof -
  have c: "b64 (cos 2) < 0" by (rule b64_neg) simp
  have "Im (lncosh_c_b64 (Complex 0 2)) = b64 (b64 pi)"
    using sin_2_pos by (simp add: lncosh_c_b64_Im carg_def Arg_negative_real[OF c])
  moreover have "\<bar>b64 (b64 pi) - pi\<bar> \<le> 2 / 1000"
    using pi_less_4 by (intro b64_b64_near) simp
  ultimately show ?thesis by linarith
qed

lemma cut_Im_below_cut:
  "Im (lncosh_c_b64 (Complex (- (1 / 2 ^ 53)) 2)) \<le> - (pi / 2) + 2 / 1000"
proof -
  define z where "z = Complex (b64 (cos 2)) (b64 (b64 (tanh (- (1 / 2 ^ 53))) * b64 (sin 2)))"
  have c: "b64 (cos 2) < 0" by (rule b64_neg) simp
  have "b64 (tanh (- (1 / 2 ^ 53))) < 0" by (rule b64_neg) simp
  moreover have "0 < b64 (sin 2)" by (rule b64_pos) (rule sin_2_pos)
  ultimately have "b64 (tanh (- (1 / 2 ^ 53))) * b64 (sin 2) < 0"
    by (rule mult_neg_pos)
  then have "b64 (b64 (tanh (- (1 / 2 ^ 53))) * b64 (sin 2)) < 0"
    by (rule b64_neg)
  then have a: "Arg z < - (pi / 2)" using c by (intro Arg_third_quadrant) (simp_all add: z_def)
  have b: "- pi < Arg z" using Arg_bounded[of z] by simp
  have i: "Im (lncosh_c_b64 (Complex (- (1 / 2 ^ 53)) 2)) = b64 (b64 (Arg z))"
    using sin_2_pos unfolding lncosh_c_b64_Im z_def by (simp add: carg_def)
  have "\<bar>Arg z\<bar> \<le> 8" using a b pi_less_4 by linarith
  from b64_b64_near[OF this] a show ?thesis unfolding i by linarith
qed

text \<open>
  Claim C2, as stated, fails in the arithmetic of the program. For \<^const>\<open>cut_nqs\<close> and
  two up spins the table that \<^verbatim>\<open>InitLt\<close> computes in binary64 is exact, hence
  coherent. For the flip of site 0, \<^verbatim>\<open>LogPoP\<close> updates the angle to \<open>-2\<^sup>-\<^sup>5\<^sup>3 + 2i\<close>,
  just below the branch cut of \<^verbatim>\<open>std::log\<close>, while \<^verbatim>\<open>LogVal\<close> on the flipped
  configuration sums \<open>b - W\<^sub>0\<close> first, which rounds to \<open>-1\<close>, and arrives at \<open>2i\<close>, on
  the cut. The imaginary parts of \<^verbatim>\<open>LogVal(state') - LogVal(state)\<close> and of
  \<^verbatim>\<open>LogPoP(state, flips)\<close> differ by more than 4.
\<close>

theorem LogPoP_jumps_at_branch_cut:
  "loaded cut_nqs \<and> length [1, 1 :: int] = nqs_nv cut_nqs \<and> [0] \<noteq> ([] :: nat list) \<and>
   flip_set cut_nqs [0] \<and> flip_spins [1, 1] [0] = [- 1, 1] \<and>
   coherent (InitLt_b64 cut_nqs [1, 1]) [1, 1] \<and>
   4 < Im (LogVal_b64 (InitLt_b64 cut_nqs [1, 1]) [- 1, 1]
           - LogVal_b64 (InitLt_b64 cut_nqs [1, 1]) [1, 1])
       - Im (LogPoP_b64 (InitLt_b64 cut_nqs [1, 1]) [1, 1] [0])"
proof -
  define A where "A = Im (lncosh_c_b64 (Complex 0 2))"
  define P where "P = Im (lncosh_c_b64 (Complex (- (1 / 2 ^ 53)) 2))"
  define L where "L = Im (lncosh_c_b64 (Complex (1 - 1 / 2 ^ 53) 2))"
  have A: "pi - 2 / 1000 \<le> A" "\<bar>A\<bar> \<le> pi + 2 / 1000"
    unfolding A_def by (rule cut_Im_on_cut, rule lncosh_c_b64_Im_bounded)
  have P: "P \<le> - (pi / 2) + 2 / 1000" "\<bar>P\<bar> \<le> pi + 2 / 1000"
    unfolding P_def by (rule cut_Im_below_cut, rule lncosh_c_b64_Im_bounded)
  have L: "\<bar>L\<bar> \<le> pi + 2 / 1000"
    unfolding L_def by (rule lncosh_c_b64_Im_bounded)
  have bA: "\<bar>b64 A - A\<bar> \<le> 1 / 1000" using A pi_less_4 by (intro b64_near16) linarith
  have bL: "\<bar>b64 L - L\<bar> \<le> 1 / 1000" using L pi_less_4 by (intro b64_near16) linarith
  have "\<bar>P - L\<bar> \<le> 16" using P L pi_less_4 by linarith
  then have 1: "\<bar>b64 (P - L) - (P - L)\<bar> \<le> 1 / 1000" by (rule b64_near16)
  then have "\<bar>b64 (P - L)\<bar> \<le> 16" using P L pi_less_4 by linarith
  then have 2: "\<bar>b64 (b64 (P - L)) - b64 (P - L)\<bar> \<le> 1 / 1000" by (rule b64_near16)
  have d: "4 < (b64 A - b64 L) - b64 (b64 (P - L))"
    using A(1) P(1) bA bL 1 2 pi_ge_3 by linarith
  have v: "Im (LogVal_b64 (InitLt_b64 cut_nqs [1, 1]) [- 1, 1]
           - LogVal_b64 (InitLt_b64 cut_nqs [1, 1]) [1, 1]) = b64 A - b64 L"
    unfolding cut_LogVal cut_LogVal_flipped by (simp add: cadd_def fadd_def A_def L_def)
  have p: "Im (LogPoP_b64 (InitLt_b64 cut_nqs [1, 1]) [1, 1] [0]) = b64 (b64 (P - L))"
    unfolding cut_LogPoP by (simp add: cadd_def csub_def fadd_def fsub_def P_def L_def)
  have c: "coherent (InitLt_b64 cut_nqs [1, 1]) [1, 1]"
    unfolding coherent_def cut_InitLt
    by (simp add: InitLt_b64_def cut_nqs_def theta_def lessThan_2 complex_eq_iff)
  have l: "loaded cut_nqs" "length [1, 1 :: int] = nqs_nv cut_nqs" "flip_set cut_nqs [0]"
    "flip_spins [1, 1] [0] = [- 1, 1]"
    by (simp_all add: loaded_def flip_set_def flip_spins_def cut_nqs_def)
  show ?thesis using l c d unfolding v p by simp
qed

section \<open>The real \<^verbatim>\<open>lncosh\<close>\<close>

lemma lncosh_direct: "\<bar>x\<bar> \<le> 12 \<Longrightarrow> lncosh x = ln (cosh x)"
  by (simp add: lncosh_def)

lemma lncosh_asymptotic: "12 < \<bar>x\<bar> \<Longrightarrow> lncosh x = \<bar>x\<bar> - ln 2"
  by (simp add: lncosh_def)

lemma lncosh_mono_direct:
  assumes "0 < x" "x < y" "y \<le> 12"
  shows "lncosh x < lncosh y"
proof -
  have "cosh x < cosh y" using assms by (intro cosh_real_strict_mono) simp_all
  then have "ln (cosh x) < ln (cosh y)" by simp
  then show ?thesis using assms by (simp add: lncosh_direct)
qed

lemma lncosh_mono_asymptotic:
  assumes "12 < x" "x < y"
  shows "lncosh x < lncosh y"
  using assms by (simp add: lncosh_asymptotic)

lemma ln_cosh_eq:
  "ln (cosh x) = x - ln 2 + ln (1 + exp (- 2 * x))" for x :: real
proof -
  have "exp x * exp (- 2 * x) = exp (- x)"
    by (simp add: exp_add[symmetric])
  then have c: "cosh x = exp x * (1 + exp (- 2 * x)) / 2"
    by (simp add: cosh_def algebra_simps)
  have p: "1 + exp (- 2 * x) > 0" by (simp add: add_pos_pos)
  have nz: "1 + exp (- 2 * x) \<noteq> 0" using p by simp
  show ?thesis unfolding c using nz by (simp add: ln_div ln_mult)
qed

lemma ln_cosh_upper: "ln (cosh x) \<le> x - ln 2 + exp (- 2 * x)" for x :: real
  using ln_add_one_self_le_self[of "exp (- 2 * x)"] by (simp add: ln_cosh_eq)

lemma lncosh_across:
  assumes "0 < x" "x \<le> 12" "12 < y"
  shows "lncosh x < lncosh y + exp (- 24)"
proof -
  have "lncosh x \<le> lncosh 12"
  proof (cases "x = 12")
    case False
    then show ?thesis using lncosh_mono_direct[of x 12] assms by simp
  qed simp
  also have "lncosh 12 = ln (cosh 12)" by (simp add: lncosh_direct)
  also have "\<dots> \<le> 12 - ln 2 + exp (- 24)" using ln_cosh_upper[of 12] by simp
  also have "\<dots> < y - ln 2 + exp (- 24)" using assms by simp
  also have "\<dots> = lncosh y + exp (- 24)" using assms by (simp add: lncosh_asymptotic)
  finally show ?thesis .
qed

lemma continuous_lncosh_direct: "continuous_on {0<..12} lncosh"
proof -
  have "continuous_on {0<..12} (\<lambda>x::real. ln (cosh x))"
    by (intro continuous_intros) (simp add: less_imp_neq[OF cosh_real_pos, symmetric])
  moreover have "\<And>x. x \<in> {0<..12} \<Longrightarrow> lncosh x = ln (cosh x)"
    by (simp add: lncosh_direct)
  ultimately show ?thesis by (subst continuous_on_cong[OF refl]) 
qed

lemma continuous_lncosh_asymptotic: "continuous_on {12<..} lncosh"
proof -
  have "continuous_on {12<..} (\<lambda>x::real. x - ln 2)"
    by (intro continuous_intros)
  moreover have "\<And>x. x \<in> {12<..} \<Longrightarrow> lncosh x = x - ln 2"
    by (simp add: lncosh_asymptotic)
  ultimately show ?thesis by (subst continuous_on_cong[OF refl])
qed

lemma exp_minus_24_lower: "1 / 3 ^ 24 \<le> exp (- 24 :: real)"
proof -
  have "exp (24::real) = exp 1 ^ 24"
    using exp_of_nat_mult[of 24 "1::real"] by simp
  also have "\<dots> \<le> 3 ^ 24" by (intro power_mono exp_le) simp
  finally have "exp (24::real) \<le> 3 ^ 24" .
  then have "1 / 3 ^ 24 \<le> 1 / exp (24::real)"
    by (intro divide_left_mono) simp_all
  then show ?thesis by (simp add: exp_minus inverse_eq_divide)
qed

text \<open>
  Claim C5, as stated, fails: just above the cutoff the function is below its value at
  the cutoff, so it is not monotonically increasing on \<open>x > 0\<close> (and it jumps at 12).
\<close>

theorem lncosh_not_monotone: "lncosh (12 + 1 / 10 ^ 12) < lncosh 12"
proof -
  let ?d = "1 / 10 ^ 12 :: real"
  have "exp ?d \<le> 1 + ?d + ?d\<^sup>2" by (intro exp_bound) simp_all
  also have "\<dots> < 1 + 1 / 3 ^ 24" by (simp add: power2_eq_square)
  also have "\<dots> \<le> 1 + exp (- 24)" using exp_minus_24_lower by simp
  finally have "ln (exp ?d) < ln (1 + exp (- 24))"
    by (subst ln_less_cancel_iff) (simp_all add: add_pos_pos)
  then have "?d < ln (1 + exp (- 24))" by simp
  then have "12 + ?d - ln 2 < ln (cosh 12)" using ln_cosh_eq[of 12] by simp
  moreover have "lncosh (12 + ?d) = 12 + ?d - ln 2" by (simp add: lncosh_asymptotic)
  moreover have "lncosh 12 = ln (cosh 12)" by (simp add: lncosh_direct)
  ultimately show ?thesis by simp
qed

text \<open>
  Claim C5, amended. The real \<^verbatim>\<open>lncosh\<close> is strictly increasing and continuous on
  \<open>(0, 12]\<close> and on \<open>(12, \<infinity>)\<close> separately; across the cutoff it is increasing up
  to an error below \<open>exp (-24)\<close>.
\<close>

theorem lncosh_piecewise:
  "(\<forall>x y. 0 < x \<and> x < y \<and> y \<le> 12 \<longrightarrow> lncosh x < lncosh y) \<and>
   (\<forall>x y. 12 < x \<and> x < y \<longrightarrow> lncosh x < lncosh y) \<and>
   (\<forall>x y. 0 < x \<and> x \<le> 12 \<and> 12 < y \<longrightarrow> lncosh x < lncosh y + exp (- 24)) \<and>
   continuous_on {0<..12} lncosh \<and> continuous_on {12<..} lncosh"
  using lncosh_mono_direct lncosh_mono_asymptotic lncosh_across
    continuous_lncosh_direct continuous_lncosh_asymptotic by blast

theorem lncosh_piecewise_witness:
  "lncosh 1 < lncosh 2 \<and> lncosh 13 < lncosh 14 \<and> lncosh 12 < lncosh 13 + exp (- 24)"
proof -
  have a: "(0::real) < 1 \<and> (1::real) < 2 \<and> (2::real) \<le> 12" by simp
  have b: "(12::real) < 13 \<and> (13::real) < 14" by simp
  have c: "(0::real) < 12 \<and> (12::real) \<le> 12 \<and> (12::real) < 13" by simp
  show ?thesis using lncosh_piecewise a b c by blast
qed

section \<open>The diagonal matrix element of the Heisenberg models\<close>

lemma fold_append_snd:
  "snd (fold (\<lambda>i (flipsh, mel). if c i then (flipsh @ [f i], mel @ [x]) else (flipsh, mel)) xs (fl, m))
   = m @ replicate (length (filter c xs)) x"
  by (induction xs arbitrary: fl m) (simp_all add: replicate_append_same)

lemma resize_1: "resize (Suc 0) d xs = [case xs of [] \<Rightarrow> d | x # _ \<Rightarrow> x]"
  by (cases xs) (simp_all add: resize_def)

lemma snd_pushed_nth0:
  assumes "snd P \<noteq> []"
  shows "snd (case P of (flipsh, mel) \<Rightarrow> if c then (flipsh @ a, mel @ b) else (flipsh, mel)) ! 0 = snd P ! 0"
  using assms by (cases P) (simp add: nth_append)

lemma FindConn_h1_diag:
  "snd (FindConn_h1 H state flipsh mel) ! 0 =
     ((\<Sum>i<h1_nspins H - 1. of_int (state ! i * state ! (i + 1)))
       + (if h1_pbc H then of_int (state ! (h1_nspins H - 1) * state ! 0) else 0)) * of_real (h1_jz H)"
proof -
  let ?n = "h1_nspins H"
  define m0 where "m0 = (resize 1 0 mel)[0 := 0::complex]"
  have m0: "m0 = [0]" by (simp add: m0_def resize_1)
  define m1 where "m1 = fold (\<lambda>i mel. mel[0 := mel ! 0 + of_int (state ! i * state ! (i + 1))]) [0..<?n - 1] m0"
  have m1: "m1 = [\<Sum>i<?n - 1. of_int (state ! i * state ! (i + 1))]"
    unfolding m1_def by (simp only: fold_add_at sum_list_upt_lessThan m0) simp
  define m2 where "m2 = (if h1_pbc H then m1[0 := m1 ! 0 + of_int (state ! (?n - 1) * state ! 0)] else m1)"
  define m3 where "m3 = m2[0 := m2 ! 0 * of_real (h1_jz H)]"
  have m3: "m3 = [((\<Sum>i<?n - 1. of_int (state ! i * state ! (i + 1)))
       + (if h1_pbc H then of_int (state ! (?n - 1) * state ! 0) else 0)) * of_real (h1_jz H)]"
    by (simp add: m3_def m2_def m1)
  define P where "P = fold (\<lambda>i (flipsh, mel).
                   if state ! i \<noteq> state ! (i + 1) then (flipsh @ [[i, i + 1]], mel @ [- 2])
                   else (flipsh, mel))
              [0..<?n - 1] (resize 1 [] flipsh, m3)"
  have P: "snd P = m3 @ replicate (length (filter (\<lambda>i. state ! i \<noteq> state ! (i + 1)) [0..<?n - 1])) (- 2)"
    unfolding P_def by (rule fold_append_snd)
  have "FindConn_h1 H state flipsh mel =
        (case P of (flipsh, mel) \<Rightarrow>
           if h1_pbc H \<and> state ! (?n - 1) \<noteq> state ! 0
           then (flipsh @ [[?n - 1, 0]], mel @ [- 2]) else (flipsh, mel))"
    unfolding FindConn_h1_def Let_def P_def m3_def m2_def m1_def m0_def ..
  then have "snd (FindConn_h1 H state flipsh mel) ! 0 = snd P ! 0"
    by (simp only: snd_pushed_nth0[of P] P m3 append_Cons list.distinct not_False_eq_True)
  then show ?thesis by (simp add: P m3)
qed

lemma chain_pairs_sum:
  fixes g :: "nat \<Rightarrow> nat \<Rightarrow> complex"
  assumes "3 \<le> n \<or> \<not> pbc"
  shows "(\<Sum>(i, j) \<in> chain_pairs n pbc. g i j) = (\<Sum>i<n - 1. g i (i + 1)) + (if pbc then g 0 (n - 1) else 0)"
proof -
  have A: "(\<Sum>x\<in>(\<lambda>i. (i, Suc i)) ` {..<k}. case x of (i, j) \<Rightarrow> g i j) = (\<Sum>i<k. g i (Suc i))" for k
    by (subst sum.reindex) (auto simp: inj_on_def)
  show ?thesis
  proof (cases pbc)
    case False
    then show ?thesis by (simp add: chain_pairs_def atLeast0LessThan A)
  next
    case True
    with assms have n: "3 \<le> n" by simp
    then have notin: "(0, n - Suc 0) \<notin> (\<lambda>i. (i, Suc i)) ` {..<n - Suc 0}" by auto
    show ?thesis using True n notin by (simp add: chain_pairs_def atLeast0LessThan A)
  qed
qed

lemma Heisenberg1d_diagonal:
  assumes "3 \<le> h1_nspins H \<or> \<not> h1_pbc H"
  shows "snd (FindConn_h1 H state flipsh mel) ! 0 = bond_energy (h1_jz H) (chain_pairs (h1_nspins H) (h1_pbc H)) state"
  unfolding FindConn_h1_diag bond_energy_def chain_pairs_sum[OF assms]
  by (simp add: mult.commute)

lemma fold_push_filter:
  "fold (\<lambda>k bonds. if P (ns ! k) then bonds @ [f (ns ! k)] else bonds) [0..<length ns] bonds
   = bonds @ map f (filter P ns)"
proof (induction ns arbitrary: bonds rule: rev_induct)
  case Nil
  then show ?case by simp
next
  case (snoc x ns)
  have "fold (\<lambda>k bonds. if P ((ns @ [x]) ! k) then bonds @ [f ((ns @ [x]) ! k)] else bonds) [0..<length ns] bonds
        = fold (\<lambda>k bonds. if P (ns ! k) then bonds @ [f (ns ! k)] else bonds) [0..<length ns] bonds"
    by (intro fold_cong) (auto simp: nth_append fun_eq_iff)
  then show ?case by (simp add: snoc.IH)
qed

lemma fold_append_concat: "fold (\<lambda>i bonds. bonds @ g i) xs b0 = b0 @ concat (map g xs)"
  by (induction xs arbitrary: b0) simp_all

lemma length_neighbours [simp]: "length (neighbours n l pbc i) = 4"
  by (simp add: neighbours_def)

lemma InitLattice_Inr:
  assumes "InitLattice H0 = Inr H" "h2_bonds H0 = []"
  shows "h2_l H * h2_l H = h2_nspins H"
    and "h2_nspins H = h2_nspins H0" "h2_l H = h2_l H0" "h2_pbc H = h2_pbc H0" "h2_jz H = h2_jz H0"
    and "h2_nn H = map (neighbours (h2_nspins H) (h2_l H) (h2_pbc H)) [0..<h2_nspins H]"
    and "h2_bonds H = concat (map (site_bonds (h2_nspins H) (h2_l H) (h2_pbc H)) [0..<h2_nspins H])"
proof -
  let ?n = "h2_nspins H0" and ?l = "h2_l H0" and ?p = "h2_pbc H0"
  let ?nn = "map (neighbours ?n ?l ?p) [0..<?n]"
  let ?bonds = "fold (\<lambda>i bonds.
                      fold (\<lambda>k bonds.
                             let j = ?nn ! i ! k
                             in if int i < j then bonds @ [(i, nat j)] else bonds)
                        [0..<4] bonds)
                      [0..<?n] (h2_bonds H0)"
  have sq: "?l * ?l = ?n" and H: "H = H0\<lparr>h2_nn := ?nn, h2_bonds := ?bonds\<rparr>"
    using assms(1) by (auto simp: InitLattice_def Let_def split: if_splits)
  have inner: "fold (\<lambda>k bonds. let j = neighbours ?n ?l ?p i ! k in if int i < j then bonds @ [(i, nat j)] else bonds) [0..<4] bonds
               = bonds @ site_bonds ?n ?l ?p i" for i bonds
    using fold_push_filter[of "\<lambda>j. int i < j" "neighbours ?n ?l ?p i" "\<lambda>j. (i, nat j)" bonds]
    by (simp add: site_bonds_def Let_def)
  have "?bonds = fold (\<lambda>i bonds. bonds @ site_bonds ?n ?l ?p i) [0..<?n] (h2_bonds H0)"
    by (intro fold_cong refl) (simp_all add: inner fun_eq_iff)
  then have b: "?bonds = concat (map (site_bonds ?n ?l ?p) [0..<?n])"
    by (simp add: fold_append_concat assms(2))
  show "h2_l H * h2_l H = h2_nspins H" "h2_nspins H = h2_nspins H0" "h2_l H = h2_l H0"
       "h2_pbc H = h2_pbc H0" "h2_jz H = h2_jz H0"
    using sq by (simp_all add: H)
  show "h2_nn H = map (neighbours (h2_nspins H) (h2_l H) (h2_pbc H)) [0..<h2_nspins H]"
    by (simp add: H)
  show "h2_bonds H = concat (map (site_bonds (h2_nspins H) (h2_l H) (h2_pbc H)) [0..<h2_nspins H])"
    using b by (simp add: H)
qed

lemma distinct_pairs_concat:
  assumes "distinct xs" "\<And>i. i \<in> set xs \<Longrightarrow> distinct (g i)" "\<And>i p. p \<in> set (g i) \<Longrightarrow> fst p = i"
  shows "distinct (concat (map g xs))"
  using assms(1,2)
proof (induction xs)
  case Nil
  then show ?case by simp
next
  case (Cons x xs)
  have "set (g x) \<inter> (\<Union>i\<in>set xs. set (g i)) = {}"
  proof (rule ccontr)
    assume "set (g x) \<inter> (\<Union>i\<in>set xs. set (g i)) \<noteq> {}"
    then obtain p i where "p \<in> set (g x)" "i \<in> set xs" "p \<in> set (g i)" by blast
    then have "x = i" using assms(3) by blast
    with \<open>i \<in> set xs\<close> Cons.prems(1) show False by simp
  qed
  with Cons show ?case by simp
qed

lemma distinct_neighbours_above:
  assumes "i < n" "l * l = n" "l \<noteq> 2 \<or> \<not> pbc"
  shows "distinct (filter (\<lambda>j. int i < j) (neighbours n l pbc i))"
proof (cases "l \<le> 1")
  case True
  with assms have "l = 1" "n = 1" "i = 0" by (cases l; auto)+
  then show ?thesis
    by (simp add: neighbours_def PbcH_def PbcV_def H_open_def V_open_def)
next
  case False
  then have l: "2 \<le> l" by simp
  show ?thesis
  proof (cases pbc)
    case False
    with l show ?thesis
      by (simp add: neighbours_def H_open_def V_open_def)
  next
    case True
    with assms l have l3: "3 \<le> l" by simp
    then have "3 * l \<le> l * l" by simp
    then have n: "3 * int l \<le> int n" using assms(2) by (metis of_nat_mult of_nat_le_iff of_nat_numeral)
    from l3 have li: "3 \<le> int l" by simp
    show ?thesis using True n li
      by (simp add: neighbours_def PbcH_def PbcV_def)
  qed
qed

lemma distinct_site_bonds:
  assumes "i < n" "l * l = n" "l \<noteq> 2 \<or> \<not> pbc"
  shows "distinct (site_bonds n l pbc i)"
proof -
  have "inj_on (\<lambda>j. (i, nat j)) (set (filter (\<lambda>j. int i < j) (neighbours n l pbc i)))"
    by (auto simp: inj_on_def)
  with distinct_neighbours_above[OF assms] show ?thesis
    by (simp add: site_bonds_def distinct_map)
qed

lemma fst_site_bonds: "p \<in> set (site_bonds n l pbc i) \<Longrightarrow> fst p = i"
  by (auto simp: site_bonds_def)

lemma distinct_bonds:
  assumes "InitLattice H0 = Inr H" "h2_bonds H0 = []" "h2_l H \<noteq> 2 \<or> \<not> h2_pbc H"
  shows "distinct (h2_bonds H)"
  unfolding InitLattice_Inr(7)[OF assms(1,2)]
  using InitLattice_Inr(1)[OF assms(1,2)] assms(3)
  by (intro distinct_pairs_concat) (simp_all add: distinct_site_bonds fst_site_bonds)

lemma neighbours_grid:
  assumes "i < l * l"
  shows "neighbours (l * l) l pbc i = map sentinel (grid_neighbours l pbc i)"
proof -
  define r where "r = i div l"
  define c where "c = i mod l"
  have l: "0 < l" using assms by (cases l) simp_all
  have c: "c < l" using l by (simp add: c_def)
  have r: "r < l" using assms l by (simp add: r_def less_mult_imp_div_less)
  have i: "i = r * l + c" by (simp add: r_def c_def)
  have m0: "int i mod int l = 0 \<longleftrightarrow> c = 0"
    by (simp add: c_def zmod_int[symmetric])
  have "(i + 1) mod l = 0 \<longleftrightarrow> c + 1 = l"
    using l by (auto simp: c_def mod_Suc)
  then have m1: "(int i + 1) mod int l = 0 \<longleftrightarrow> c + 1 = l"
    by (metis of_nat_Suc of_nat_eq_0_iff zmod_int Suc_eq_plus1 of_nat_add of_nat_1)
  have u: "int i - int l < 0 \<longleftrightarrow> r = 0"
    using l by (auto simp: r_def div_eq_0_iff)
  have "l * l \<le> i + l \<longleftrightarrow> r + 1 = l"
  proof
    assume "l * l \<le> i + l"
    then have "(l - 1) * l \<le> i" by (simp add: algebra_simps)
    then have "l - 1 \<le> r" using l by (simp add: r_def less_eq_div_iff_mult_less_eq)
    with r show "r + 1 = l" by simp
  next
    assume "r + 1 = l"
    then have "l * l = r * l + l" by (metis add_mult_distrib mult.commute nat_mult_1)
    then show "l * l \<le> i + l" using i by simp
  qed
  then have d: "int l * int l \<le> int i + int l \<longleftrightarrow> r + 1 = l"
    by (metis of_nat_add of_nat_le_iff of_nat_mult)
  have ii: "int i = int r * int l + int c" using i by simp
  have il: "int (l - 1) = int l - 1" using l by (simp add: of_nat_diff)
  have ic: "0 < c \<Longrightarrow> int (c - 1) = int c - 1" by (simp add: of_nat_diff)
  have ir: "0 < r \<Longrightarrow> int (r - 1) = int r - 1" by (simp add: of_nat_diff)
  have nU: "\<not> int l * int l \<le> int i - int l"
    using assms by (metis of_nat_mult of_nat_less_iff not_le diff_ge_0_iff_ge le_less_trans
        less_le_not_le of_nat_0_le_iff linorder_not_less add_increasing2 diff_le_eq)
  have nD: "\<not> int i + int l < 0" by simp
  have L1: "PbcH (int l) (int i - 1) (int i) = (if c = 0 then int i + int l - 1 else int i - 1)"
    by (simp add: PbcH_def m0)
  have L2: "H_open (int l) (int i - 1) (int i) = (if c = 0 then - 1 else int i - 1)"
    by (simp add: H_open_def m0)
  have R1: "PbcH (int l) (int i + 1) (int i) = (if c + 1 = l then int i - int l + 1 else int i + 1)"
    by (simp add: PbcH_def m1)
  have R2: "H_open (int l) (int i + 1) (int i) = (if c + 1 = l then - 1 else int i + 1)"
    by (simp add: H_open_def m1)
  have U1: "PbcV (int (l * l)) (int i - int l) = (if r = 0 then int (l * l) + (int i - int l) else int i - int l)"
    using nU u by (simp add: PbcV_def)
  have U2: "V_open (int (l * l)) (int i - int l) = (if r = 0 then - 1 else int i - int l)"
    using nU u by (simp add: V_open_def)
  have D1: "PbcV (int (l * l)) (int i + int l) = (if r + 1 = l then int i + int l - int (l * l) else int i + int l)"
    using d by (simp add: PbcV_def)
  have D2: "V_open (int (l * l)) (int i + int l) = (if r + 1 = l then - 1 else int i + int l)"
    using d by (simp add: V_open_def)
  have vL0: "int (r * l + (l - 1)) = int i + int l - 1" if "c = 0"
    using that l by (simp add: ii il)
  have vL1: "int (r * l + (c - 1)) = int i - 1" if "0 < c"
    using that by (simp add: ii ic)
  have vR0: "int (r * l) = int i - int l + 1" if "c + 1 = l"
  proof -
    from that have "int c = int l - 1" by linarith
    then show ?thesis by (simp add: ii)
  qed
  have vR1: "int (r * l + (c + 1)) = int i + 1"
    by (simp add: ii)
  have "(l - 1) * l + l = l * l" using l by (cases l) simp_all
  then have e: "int ((l - 1) * l) + int l = int (l * l)" by (metis of_nat_add)
  have vU0: "int ((l - 1) * l + c) = int (l * l) + (int i - int l)" if "r = 0"
  proof -
    from that ii have "int i = int c" by simp
    with e show ?thesis by (simp only: of_nat_add)
  qed
  have vU1: "int ((r - 1) * l + c) = int i - int l" if "0 < r"
  proof -
    from that have "(r - 1) * l + l = r * l" by (cases r) simp_all
    then have "int ((r - 1) * l) + int l = int (r * l)" by (metis of_nat_add)
    with ii show ?thesis by simp
  qed
  have vD0: "int c = int i + int l - int (l * l)" if "r + 1 = l"
  proof -
    from that have lr: "int l = int r + 1" by linarith
    show ?thesis by (simp add: ii lr algebra_simps)
  qed
  have vD1: "int ((r + 1) * l + c) = int i + int l"
    by (simp add: ii algebra_simps)
  have L: "(if pbc then PbcH (int l) (int i - 1) (int i) else H_open (int l) (int i - 1) (int i))
           = sentinel (if 0 < c then Some (r * l + (c - 1)) else if pbc then Some (r * l + (l - 1)) else None)"
    unfolding L1 L2 using vL0 vL1 by (cases "c = 0") (simp_all add: sentinel_def)
  have R: "(if pbc then PbcH (int l) (int i + 1) (int i) else H_open (int l) (int i + 1) (int i))
           = sentinel (if c + 1 < l then Some (r * l + (c + 1)) else if pbc then Some (r * l) else None)"
    unfolding R1 R2 using vR0 vR1 c by (cases "c + 1 = l") (simp_all add: sentinel_def)
  have U: "(if pbc then PbcV (int (l * l)) (int i - int l) else V_open (int (l * l)) (int i - int l))
           = sentinel (if 0 < r then Some ((r - 1) * l + c) else if pbc then Some ((l - 1) * l + c) else None)"
    unfolding U1 U2 using vU0 vU1 by (cases "r = 0") (simp_all add: sentinel_def)
  have D: "(if pbc then PbcV (int (l * l)) (int i + int l) else V_open (int (l * l)) (int i + int l))
           = sentinel (if r + 1 < l then Some ((r + 1) * l + c) else if pbc then Some c else None)"
    unfolding D1 D2 using vD0 vD1 r by (cases "r + 1 = l") (simp_all add: sentinel_def)
  show ?thesis
    unfolding neighbours_def grid_neighbours_def Let_def r_def[symmetric] c_def[symmetric]
    by (simp only: L R U D list.map)
qed

lemma set_map_filter_id: "set (List.map_filter id xs) = {j. Some j \<in> set xs}"
  by (induction xs) (auto simp: List.map_filter_simps split: option.splits)

lemma set_site_bonds:
  assumes "i < l * l"
  shows "set (site_bonds (l * l) l pbc i)
         = (\<lambda>j. (i, j)) ` {j \<in> set (List.map_filter id (grid_neighbours l pbc i)). i < j}"
proof -
  have "set (site_bonds (l * l) l pbc i)
        = (\<lambda>j. (i, nat j)) ` {j \<in> sentinel ` set (grid_neighbours l pbc i). int i < j}"
    by (simp add: site_bonds_def neighbours_grid[OF assms])
  also have "\<dots> = (\<lambda>j. (i, j)) ` {j. Some j \<in> set (grid_neighbours l pbc i) \<and> i < j}"
    by (force simp: sentinel_def image_iff split: option.splits)
  also have "{j. Some j \<in> set (grid_neighbours l pbc i) \<and> i < j}
             = {j \<in> set (List.map_filter id (grid_neighbours l pbc i)). i < j}"
    by (auto simp: set_map_filter_id)
  finally show ?thesis .
qed

lemma set_bonds:
  assumes "InitLattice H0 = Inr H" "h2_bonds H0 = []"
  shows "set (h2_bonds H) = grid_pairs (h2_l H) (h2_pbc H)"
proof -
  have n: "h2_nspins H = h2_l H * h2_l H"
    using InitLattice_Inr(1)[OF assms] by simp
  show ?thesis
    unfolding InitLattice_Inr(7)[OF assms] n grid_pairs_def
    by (auto simp: atLeast0LessThan set_site_bonds)
qed

lemma fold_id_snd:
  "snd (fold (\<lambda>i (flipsh, mel). let si = a i; sj = b i in if c i si sj then (flipsh @ [f si sj], mel @ [x]) else (flipsh, mel)) xs (fl, m))
   = m @ replicate (length (filter (\<lambda>i. c i (a i) (b i)) xs)) x"
  by (induction xs arbitrary: fl m) (simp_all add: replicate_append_same Let_def)

lemma FindConn_h2_diag:
  "snd (FindConn_h2 H state flipsh mel) ! 0 =
     (\<Sum>(i, j)\<leftarrow>h2_bonds H. of_int (state ! i * state ! j)) * of_real (h2_jz H)"
proof -
  let ?b = "h2_bonds H"
  define m0 where "m0 = (resize 1 0 mel)[0 := 0::complex]"
  have m0: "m0 = [0]" by (simp add: m0_def resize_1)
  define m1 where "m1 = fold (\<lambda>i mel. mel[0 := mel ! 0 + of_int (state ! fst (?b ! i) * state ! snd (?b ! i))]) [0..<length ?b] m0"
  have "(\<Sum>i\<leftarrow>[0..<length ?b]. complex_of_int (state ! fst (?b ! i) * state ! snd (?b ! i)))
        = (\<Sum>p\<leftarrow>map (nth ?b) [0..<length ?b]. of_int (state ! fst p * state ! snd p))"
    by (simp add: o_def)
  also have "\<dots> = (\<Sum>(i, j)\<leftarrow>?b. of_int (state ! i * state ! j))"
    by (simp add: map_nth case_prod_unfold)
  finally have m1: "m1 = [\<Sum>(i, j)\<leftarrow>?b. of_int (state ! i * state ! j)]"
    unfolding m1_def by (simp only: fold_add_at m0) simp
  define m2 where "m2 = m1[0 := m1 ! 0 * of_real (h2_jz H)]"
  have m2: "m2 = [(\<Sum>(i, j)\<leftarrow>?b. of_int (state ! i * state ! j)) * of_real (h2_jz H)]"
    by (simp add: m2_def m1)
  have "snd (FindConn_h2 H state flipsh mel) =
        m2 @ replicate (length (filter (\<lambda>i. state ! fst (?b ! i) \<noteq> state ! snd (?b ! i)) [0..<length ?b])) (- 2)"
    unfolding FindConn_h2_def Let_def[of "h2_bonds H"] Let_def[of "resize _ _ _"] Let_def[of "list_update _ _ _"]
      Let_def[of "fold _ _ _"]
    unfolding m0_def[symmetric] m1_def[symmetric] m2_def[symmetric]
    by (rule fold_id_snd)
  then show ?thesis by (simp add: m2)
qed

lemma Heisenberg2d_diagonal:
  assumes "Heisenberg2d nspins jz pbc = Inr H" "h2_l H \<noteq> 2 \<or> \<not> pbc"
  shows "snd (FindConn_h2 H state flipsh mel) ! 0 = bond_energy jz (grid_pairs (h2_l H) pbc) state"
proof -
  let ?H0 = "\<lparr>h2_nspins = nspins, h2_l = nat \<lfloor>sqrt (real nspins)\<rfloor>, h2_pbc = pbc,
                  h2_jz = jz, h2_nn = [], h2_bonds = []\<rparr>"
  have i: "InitLattice ?H0 = Inr H" and e: "h2_bonds ?H0 = []"
    using assms(1) by (simp_all add: Heisenberg2d_def)
  have p: "h2_pbc H = pbc" and j: "h2_jz H = jz"
    using InitLattice_Inr(4,5)[OF i e] by simp_all
  have d: "distinct (h2_bonds H)"
    using assms(2) by (intro distinct_bonds[OF i e]) (simp add: p)
  have "(\<Sum>(i, j)\<leftarrow>h2_bonds H. complex_of_int (state ! i * state ! j))
        = (\<Sum>(i, j)\<in>grid_pairs (h2_l H) pbc. of_int (state ! i * state ! j))"
    using d by (simp add: sum_list_distinct_conv_sum_set set_bonds[OF i e] p)
  then show ?thesis
    by (simp add: FindConn_h2_diag bond_energy_def j mult.commute)
qed

lemma floor_sqrt_square: "nat \<lfloor>sqrt (real (k * k))\<rfloor> = k"
  by (simp add: real_sqrt_mult)

lemma demo_lattice_init:
  "InitLattice \<lparr>h2_nspins = 9, h2_l = 3, h2_pbc = True, h2_jz = 1, h2_nn = [], h2_bonds = []\<rparr>
   = Inr demo_lattice"
  by code_simp

lemma demo_lattice_built: "Heisenberg2d 9 1 True = Inr demo_lattice"
proof -
  have "nat \<lfloor>sqrt (real 9)\<rfloor> = 3" using floor_sqrt_square[of 3] by simp
  then show ?thesis by (simp add: Heisenberg2d_def demo_lattice_init)
qed

lemma square_2x2_init:
  "InitLattice \<lparr>h2_nspins = 4, h2_l = 2, h2_pbc = True, h2_jz = 1, h2_nn = [], h2_bonds = []\<rparr>
   = Inr square_2x2"
  by code_simp

lemma square_2x2_built: "Heisenberg2d 4 1 True = Inr square_2x2"
proof -
  have "nat \<lfloor>sqrt (real 4)\<rfloor> = 2" using floor_sqrt_square[of 2] by simp
  then show ?thesis by (simp add: Heisenberg2d_def square_2x2_init)
qed

text \<open>
  Claim C6, amended. For the 1D Heisenberg model with open boundary or at least three
  spins, and for the 2D model with open boundary or linear size other than 2, the first
  matrix element returned by \<^verbatim>\<open>FindConn\<close> is \<open>Jz\<close> times the sum of
  \<open>state[i] \<cdot> state[j]\<close> over the nearest-neighbour pairs, each undirected pair
  once.
\<close>

theorem Heisenberg_diagonal_bonds:
  "(spin_configuration (h1_nspins H1) state1 \<and> (3 \<le> h1_nspins H1 \<or> \<not> h1_pbc H1) \<longrightarrow>
      snd (FindConn (Heis1d H1) state1 flipsh mel) ! 0
        = bond_energy (h1_jz H1) (chain_pairs (h1_nspins H1) (h1_pbc H1)) state1) \<and>
   (Heisenberg2d nspins jz pbc = Inr H2 \<and> spin_configuration nspins state2 \<and>
      (h2_l H2 \<noteq> 2 \<or> \<not> pbc) \<longrightarrow>
      snd (FindConn (Heis2d H2) state2 flipsh mel) ! 0
        = bond_energy jz (grid_pairs (h2_l H2) pbc) state2)"
  using Heisenberg1d_diagonal[of H1 state1 flipsh mel] Heisenberg2d_diagonal[of nspins jz pbc H2 state2 flipsh mel]
  by simp

text \<open>
  Claim C6, as stated, fails on a periodic lattice of linear size 2: the periodic chain
  of two spins visits the pair \<open>{0, 1}\<close> in its loop and again in the wrap-around
  term, and on the periodic 2 by 2 square the left and the right neighbour of a site
  coincide (as do the upper and the lower), so \<^verbatim>\<open>bonds_\<close> holds every pair twice.
\<close>

theorem Heisenberg_pair_counted_twice:
  "snd (FindConn (Heis1d \<lparr>h1_nspins = 2, h1_pbc = True, h1_jz = 1\<rparr>) [1, - 1] [] []) ! 0 = - 2 \<and>
   bond_energy 1 (chain_pairs 2 True) [1, - 1] = - 1 \<and>
   Heisenberg2d 4 1 True = Inr square_2x2 \<and>
   snd (FindConn (Heis2d square_2x2) [1, 1, 1, 1] [] []) ! 0 = 8 \<and>
   bond_energy 1 (grid_pairs 2 True) [1, 1, 1, 1] = 4"
proof -
  have a: "snd (FindConn (Heis1d \<lparr>h1_nspins = 2, h1_pbc = True, h1_jz = 1\<rparr>) [1, - 1] [] []) ! 0 = - 2"
    by (simp add: FindConn_h1_def resize_def)
  have b: "bond_energy 1 (chain_pairs 2 True) [1, - 1] = - 1"
    by (simp add: bond_energy_def chain_pairs_def)
  have c: "snd (FindConn (Heis2d square_2x2) [1, 1, 1, 1] [] []) ! 0 = 8"
    by (simp add: FindConn_h2_diag square_2x2_def)
  have "grid_pairs (h2_l square_2x2) (h2_pbc square_2x2) = set (h2_bonds square_2x2)"
    using set_bonds[OF square_2x2_init] by simp
  then have gp: "grid_pairs 2 True = {(0, 1), (0, 2), (1, 3), (2, 3)}"
    by (simp add: square_2x2_def)
  have d: "bond_energy 1 (grid_pairs 2 True) [1, 1, 1, 1] = 4"
    unfolding gp by (simp add: bond_energy_def)
  show ?thesis using a b c d square_2x2_built by simp
qed

theorem Heisenberg_diagonal_bonds_witness:
  "spin_configuration 3 [1, - 1, 1] \<and>
   snd (FindConn (Heis1d \<lparr>h1_nspins = 3, h1_pbc = True, h1_jz = 2\<rparr>) [1, - 1, 1] [] []) ! 0
     = bond_energy 2 (chain_pairs 3 True) [1, - 1, 1] \<and>
   Heisenberg2d 9 1 True = Inr demo_lattice \<and>
   spin_configuration 9 [1, - 1, 1, - 1, 1, - 1, 1, - 1, 1] \<and> h2_l demo_lattice = 3 \<and>
   snd (FindConn (Heis2d demo_lattice) [1, - 1, 1, - 1, 1, - 1, 1, - 1, 1] [] []) ! 0
     = bond_energy 1 (grid_pairs 3 True) [1, - 1, 1, - 1, 1, - 1, 1, - 1, 1]"
proof -
  have a: "spin_configuration 3 [1, - 1, 1]" by (simp add: spin_configuration_def)
  have b: "spin_configuration 9 [1, - 1, 1, - 1, 1, - 1, 1, - 1, 1]" by (simp add: spin_configuration_def)
  have c: "h2_l demo_lattice = 3" by (simp add: demo_lattice_def)
  show ?thesis
    using Heisenberg_diagonal_bonds[of "\<lparr>h1_nspins = 3, h1_pbc = True, h1_jz = 2\<rparr>" "[1, - 1, 1]" "[]" "[]"
        9 1 True demo_lattice "[1, - 1, 1, - 1, 1, - 1, 1, - 1, 1]"]
      a b c demo_lattice_built by simp
qed

section \<open>The sampler\<close>

lemma RandSpin_frame:
  assumes "RandSpin R nflips mag0 s = (b, s')"
  shows "smp_wf s' = smp_wf s" "smp_state s' = smp_state s" "smp_energy s' = smp_energy s"
    "smp_nspins s' = smp_nspins s" "smp_hamiltonian s' = smp_hamiltonian s"
    "smp_writestates s' = smp_writestates s"
  using assms by (auto simp: RandSpin_def Let_def split: prod.splits if_splits)

lemma Move_cases:
  "Move R nflips s =
     (case RandSpin R nflips True s of
        (False, s1) \<Rightarrow> s1\<lparr>smp_nmoves := smp_nmoves s1 + 1\<rparr>
      | (True, s1) \<Rightarrow>
          (case Uniform R s1 of (u, s2) \<Rightarrow>
             if acceptance s1 > u then (accept_move s2)\<lparr>smp_nmoves := smp_nmoves s2 + 1\<rparr>
             else s2\<lparr>smp_nmoves := smp_nmoves s2 + 1\<rparr>))"
  by (auto simp: Move_def Let_def accept_move_def split: prod.splits)

lemma acceptance_nonneg: "0 \<le> acceptance s"
  by (simp add: acceptance_def)

text \<open>
  Claim C4, amended. The acceptance value of \<^verbatim>\<open>Move\<close> is the squared modulus of the
  amplitude ratio, not clamped: it is never negative but may exceed 1. When
  \<^verbatim>\<open>RandSpin\<close> proposes a flip set, a uniform variate \<open>u\<close> is drawn and the move is
  accepted iff \<open>u\<close> is less than that value, which for \<open>u\<close> in \<open>[0,1)\<close> is the
  decision \<open>u < min(1, |ratio|\<^sup>2)\<close>; when \<^verbatim>\<open>RandSpin\<close> rejects the proposal, the move
  is rejected and no variate is drawn. The move counter grows by one either way.
\<close>

theorem Move_acceptance_rule:
  "0 \<le> acceptance s1 \<and>
   (RandSpin R nflips True s = (True, s1) \<and> Uniform R s1 = (u, s2) \<and> 0 \<le> u \<and> u < 1 \<longrightarrow>
      Move R nflips s =
        (if u < min 1 (acceptance s1) then (accept_move s2)\<lparr>smp_nmoves := smp_nmoves s2 + 1\<rparr>
         else s2\<lparr>smp_nmoves := smp_nmoves s2 + 1\<rparr>)) \<and>
   (RandSpin R nflips True s = (False, s1) \<longrightarrow>
      Move R nflips s = s1\<lparr>smp_nmoves := smp_nmoves s1 + 1\<rparr>)"
  by (auto simp: Move_cases acceptance_nonneg)

lemma Uniform_eq:
  "Uniform R s = (fst (distu R (smp_gen s)), s\<lparr>smp_gen := snd (distu R (smp_gen s))\<rparr>)"
  by (simp add: Uniform_def split: prod.splits)

lemma Move_frame:
  "smp_energy (Move R nflips s) = smp_energy s" "smp_nspins (Move R nflips s) = smp_nspins s"
  "smp_hamiltonian (Move R nflips s) = smp_hamiltonian s"
  "smp_writestates (Move R nflips s) = smp_writestates s"
proof -
  obtain b s1 where r: "RandSpin R nflips True s = (b, s1)" by (cases "RandSpin R nflips True s")
  note f = RandSpin_frame[OF r]
  show "smp_energy (Move R nflips s) = smp_energy s" "smp_nspins (Move R nflips s) = smp_nspins s"
    "smp_hamiltonian (Move R nflips s) = smp_hamiltonian s"
    "smp_writestates (Move R nflips s) = smp_writestates s"
    by (cases b; simp add: Move_cases r Uniform_eq accept_move_def f)+
qed

lemma fold_Move_frame:
  "smp_energy (fold (\<lambda>i s. Move R nflips s) xs s) = smp_energy s \<and>
   smp_nspins (fold (\<lambda>i s. Move R nflips s) xs s) = smp_nspins s \<and>
   smp_writestates (fold (\<lambda>i s. Move R nflips s) xs s) = smp_writestates s"
  by (induction xs arbitrary: s) (simp_all add: Move_frame)

lemma sweep_frame:
  "smp_energy (sweep R nflips sweepfactor s) = smp_energy s"
  "smp_nspins (sweep R nflips sweepfactor s) = smp_nspins s"
  "smp_writestates (sweep R nflips sweepfactor s) = smp_writestates s"
  by (simp_all add: sweep_def fold_Move_frame)

text \<open>
  Claim C10. \<^verbatim>\<open>MeasureEnergy\<close> appends exactly one value to the energy samples and
  leaves the configuration, the wave function with its lookup table, the generator and
  the move statistics unchanged, whatever the configuration and the Hamiltonian.
\<close>

theorem MeasureEnergy_frame:
  "smp_energy (MeasureEnergy s) = smp_energy s @ [local_energy s] \<and>
   length (smp_energy (MeasureEnergy s)) = length (smp_energy s) + 1 \<and>
   smp_state (MeasureEnergy s) = smp_state s \<and>
   smp_wf (MeasureEnergy s) = smp_wf s \<and>
   smp_gen (MeasureEnergy s) = smp_gen s \<and>
   smp_accept (MeasureEnergy s) = smp_accept s \<and>
   smp_nmoves (MeasureEnergy s) = smp_nmoves s"
  by (simp add: MeasureEnergy_def local_energy_def Let_def split: prod.splits)

lemma measured_sweep_energy:
  "length (smp_energy (measured_sweep R nflips sweepfactor s)) = length (smp_energy s) + 1"
  by (simp add: measured_sweep_def Let_def MeasureEnergy_def WriteState_def sweep_frame split: prod.splits)

lemma for_double_invariant:
  assumes "\<And>s. f (body s) = f s"
  shows "f (for_double bound body n s) = f s"
  using assms
proof (induction bound body n s rule: for_double.induct)
  case (1 bound body n s)
  show ?case
  proof (cases "real n < bound")
    case True
    have "for_double bound body n s = for_double bound body (n + 1) (body s)"
      using True by (subst for_double.simps) simp
    with "1.IH"[OF True "1.prems"] show ?thesis by (simp add: "1.prems")
  next
    case False
    then show ?thesis by (subst for_double.simps) simp
  qed
qed

lemma for_double_count:
  assumes "\<And>s. f (body s) = f s + (1::nat)"
  shows "f (for_double bound body n s) = f s + (nat \<lceil>bound\<rceil> - n)"
  using assms
proof (induction bound body n s rule: for_double.induct)
  case (1 bound body n s)
  show ?case
  proof (cases "real n < bound")
    case True
    then have n: "n < nat \<lceil>bound\<rceil>" by linarith
    have "for_double bound body n s = for_double bound body (n + 1) (body s)"
      using True by (subst for_double.simps) simp
    with "1.IH"[OF True "1.prems"] n show ?thesis by (simp add: "1.prems")
  next
    case False
    then have "nat \<lceil>bound\<rceil> \<le> n" by linarith
    with False show ?thesis by (subst for_double.simps) simp
  qed
qed

lemma InitRandomState_result:
  assumes "InitRandomState R mag0 s = Some r"
  shows "r = Inl OddSpins \<or> (\<exists>state g. r = Inr (s\<lparr>smp_state := state, smp_gen := g\<rparr>))"
  using assms
  by (auto simp: InitRandomState_def Let_def split: prod.splits if_splits)

lemma Run_sampling_energy:
  assumes "Run_sampling R nflips nsweeps thermfactor sweepfactor s = Some (Inr (s', rep))"
  shows "length (smp_energy s') = length (smp_energy s) + nat \<lceil>nsweeps\<rceil>"
proof -
  from assms obtain s1 where i: "InitRandomState R True s = Some (Inr s1)"
    by (auto simp: Run_sampling_def split: option.splits sum.splits)
  then have e1: "smp_energy s1 = smp_energy s"
    using InitRandomState_result[OF i] by auto
  define s2 where "s2 = ResetAv ((s1\<lparr>smp_flips := resize nflips 0 (smp_flips s1)\<rparr>)\<lparr>smp_wf := InitLt (smp_wf s1) (smp_state s1)\<rparr>)"
  define s3 where "s3 = ResetAv (for_double (nsweeps * thermfactor) (sweep R nflips sweepfactor) 0 s2)"
  have e2: "smp_energy s2 = smp_energy s" by (simp add: s2_def ResetAv_def e1)
  have "smp_energy (for_double (nsweeps * thermfactor) (sweep R nflips sweepfactor) 0 s2) = smp_energy s2"
    by (rule for_double_invariant) (rule sweep_frame)
  then have e3: "smp_energy s3 = smp_energy s" by (simp add: s3_def ResetAv_def e2)
  have s': "s' = for_double nsweeps (measured_sweep R nflips sweepfactor) 0 s3"
    using assms i by (simp add: Run_sampling_def Let_def s3_def s2_def)
  have "length (smp_energy s') = length (smp_energy s3) + (nat \<lceil>nsweeps\<rceil> - 0)"
    unfolding s' by (rule for_double_count[where f = "\<lambda>s. length (smp_energy s)"]) (rule measured_sweep_energy)
  then show ?thesis by (simp add: e3)
qed

















lemma demo_InitRandomState:
  "InitRandomState demo_rng True demo_sampler
   = Some (Inr (demo_sampler\<lparr>smp_state := [1, - 1], smp_gen := 3\<rparr>))"
proof -
  have r: "redraw (distn demo_rng) (\<lambda>rs. [- 1, - 1 :: int] ! rs > 0) (distn demo_rng 2) = Some (0, 3)"
    by (subst redraw.simps) (simp add: demo_rng_def)
  have z3: "zero_magnetization demo_rng 2 0 ([1, - 1], 3) = Some ([1, - 1], 3)"
    by (subst zero_magnetization.simps) simp
  have z2: "zero_magnetization demo_rng 2 (- 1) ([1, - 1], 3) = Some ([1, - 1], 3)"
    by (subst zero_magnetization.simps) (simp add: upt_0_2 z3)
  have z1: "zero_magnetization demo_rng 2 1 ([- 1, - 1], 2) = Some ([1, - 1], 3)"
    by (subst zero_magnetization.simps) (simp add: upt_0_2 r z2)
  have f: "fold (\<lambda>i (state, g). case distu demo_rng g of
                               (u, g) \<Rightarrow> (state[i := (if u < 0.5 then - 1 else 1)], g))
             [0..<2] (resize 2 0 [], 0) = ([- 1, - 1], 2)"
    by (simp add: upt_0_2 resize_def demo_rng_def numeral_2_eq_2)
  have d: "smp_nspins demo_sampler = 2" "smp_state demo_sampler = []" "smp_gen demo_sampler = 0"
    by (simp_all add: demo_sampler_def)
  show ?thesis
    unfolding InitRandomState_def Let_def d f by (simp add: z1)
qed


lemma demo_Run_returns:
  "\<exists>s' rep. Run demo_rng 50 (1 / 2) 1 (- 1) demo_sampler = Some (Inr (s', rep))"
proof -
  have "Run_checks (smp_hamiltonian demo_sampler) 50 (1 / 2) (- 1) = Inr 1"
    by (simp add: Run_checks_def demo_sampler_def)
  then show ?thesis
    by (simp add: Run_def Run_sampling_def demo_InitRandomState Let_def)
qed

text \<open>
  Claim C3 at a concrete input: \<^verbatim>\<open>Run(50, 0.5, 1)\<close> on two spins returns with 50
  energy samples, one per sweep of the second loop, which runs \<open>nsweeps\<close> times; the
  claim's \<open>(1 - thermFraction) \<cdot> nsweeps\<close> would be 25.
\<close>

theorem Run_measures_every_sweep:
  "\<exists>s' rep. Run demo_rng 50 (1 / 2) 1 (- 1) demo_sampler = Some (Inr (s', rep)) \<and>
     length (smp_energy s') = 50 \<and> (1 - 1 / 2) * 50 = (25::real)"
proof -
  from demo_Run_returns obtain s' rep
    where r: "Run demo_rng 50 (1 / 2) 1 (- 1) demo_sampler = Some (Inr (s', rep))" by blast
  have "Run_checks (smp_hamiltonian demo_sampler) 50 (1 / 2) (- 1) = Inr 1"
    by (simp add: Run_checks_def demo_sampler_def)
  with r have "Run_sampling demo_rng 1 50 (1 / 2) 1 demo_sampler = Some (Inr (s', rep))"
    by (simp add: Run_def)
  from Run_sampling_energy[OF this] have "length (smp_energy s') = 50"
    by (simp add: demo_sampler_def)
  with r show ?thesis by auto
qed




lemma running_RandSpin:
  "RandSpin demo_rng 1 True running_sampler = (True, running_sampler\<lparr>smp_flips := [1], smp_gen := 4\<rparr>)"
  by (simp add: RandSpin_def running_sampler_def demo_sampler_def demo_rng_def resize_def)

lemma running_Uniform:
  "Uniform demo_rng (running_sampler\<lparr>smp_flips := [1], smp_gen := 4\<rparr>)
   = (1 / 4, running_sampler\<lparr>smp_flips := [1], smp_gen := 5\<rparr>)"
  by (simp add: Uniform_def running_sampler_def demo_sampler_def demo_rng_def)

theorem Move_acceptance_rule_witness:
  "RandSpin demo_rng 1 True running_sampler = (True, running_sampler\<lparr>smp_flips := [1], smp_gen := 4\<rparr>) \<and>
   Uniform demo_rng (running_sampler\<lparr>smp_flips := [1], smp_gen := 4\<rparr>)
     = (1 / 4, running_sampler\<lparr>smp_flips := [1], smp_gen := 5\<rparr>) \<and>
   (0::real) \<le> 1 / 4 \<and> (1 / 4 :: real) < 1 \<and>
   Move demo_rng 1 running_sampler =
     (if 1 / 4 < min 1 (acceptance (running_sampler\<lparr>smp_flips := [1], smp_gen := 4\<rparr>))
      then (accept_move (running_sampler\<lparr>smp_flips := [1], smp_gen := 5\<rparr>))
             \<lparr>smp_nmoves := smp_nmoves (running_sampler\<lparr>smp_flips := [1], smp_gen := 5\<rparr>) + 1\<rparr>
      else (running_sampler\<lparr>smp_flips := [1], smp_gen := 5\<rparr>)
             \<lparr>smp_nmoves := smp_nmoves (running_sampler\<lparr>smp_flips := [1], smp_gen := 5\<rparr>) + 1\<rparr>)"
proof -
  have u: "(0::real) \<le> 1 / 4 \<and> (1 / 4 :: real) < 1" by simp
  show ?thesis
    using Move_acceptance_rule[of "running_sampler\<lparr>smp_flips := [1], smp_gen := 4\<rparr>"
        demo_rng 1 running_sampler "1 / 4" "running_sampler\<lparr>smp_flips := [1], smp_gen := 5\<rparr>"]
      running_RandSpin running_Uniform u
    by blast
qed

text \<open>
  Claim C4, as stated, fails: for a wave function with visible biases only, the
  acceptance value computed for the proposed flip is \<open>exp(2)\<^sup>2\<close>, above 1.
\<close>

theorem acceptance_exceeds_one:
  "RandSpin demo_rng 1 True bias_sampler = (True, bias_sampler\<lparr>smp_flips := [0], smp_gen := 1\<rparr>) \<and>
   1 < acceptance (bias_sampler\<lparr>smp_flips := [0], smp_gen := 1\<rparr>)"
proof -
  have r: "RandSpin demo_rng 1 True bias_sampler = (True, bias_sampler\<lparr>smp_flips := [0], smp_gen := 1\<rparr>)"
    by (simp add: RandSpin_def bias_sampler_def demo_sampler_def demo_rng_def resize_def)
  have "LogPoP (smp_wf bias_sampler) (smp_state bias_sampler) [0] = 2"
    by (simp add: LogPoP_def bias_sampler_def)
  then have "acceptance (bias_sampler\<lparr>smp_flips := [0], smp_gen := 1\<rparr>) = (exp 2)\<^sup>2"
    by (simp add: acceptance_def PoP_def)
  moreover have "(1::real) < (exp 2)\<^sup>2"
    by (intro one_less_power) simp_all
  ultimately show ?thesis using r by simp
qed

section \<open>The binning estimator\<close>

lemma welford_mean_step:
  "fst (welford X k) + (X k - fst (welford X k)) / real (k + 1) = fst (welford X (Suc k))"
proof (cases "k = 0")
  case True
  then show ?thesis by (simp add: welford_def)
next
  case False
  define S where "S = (\<Sum>j<k. X j)"
  define x where "x = X k"
  define r where "r = real k"
  have r: "r > 0" using False by (simp add: r_def)
  have a: "x - S / r = (x * r - S) / r"
    using r by (simp add: diff_divide_distrib)
  have c: "S / r = S * (r + 1) / (r * (r + 1))"
    using r by simp
  have "S / r + (x - S / r) / (r + 1) = (S * (r + 1) + (x * r - S)) / (r * (r + 1))"
    unfolding a by (subst c) (simp add: add_divide_distrib)
  also have "\<dots> = ((S + x) * r) / (r * (r + 1))"
    by (simp add: algebra_simps)
  also have "\<dots> = (S + x) / (r + 1)"
    using r by simp
  finally have "S / r + (x - S / r) / (r + 1) = (S + x) / (r + 1)" .
  then show ?thesis
    by (simp add: welford_def S_def[symmetric] x_def[symmetric] r_def[symmetric] add.commute[of 1 r])
qed

lemma welford_m2_step:
  "snd (welford X k) + (X k - fst (welford X k)) * (X k - fst (welford X (Suc k)))
   = snd (welford X (Suc k))"
proof (cases "k = 0")
  case True
  then show ?thesis by (simp add: welford_def)
next
  case False
  define S where "S = (\<Sum>j<k. X j)"
  define x where "x = X k"
  define r where "r = real k"
  have r: "r > 0" using False by (simp add: r_def)
  have "(x - S / r) * (x - (S + x) / (r + 1)) = x\<^sup>2 - (S + x)\<^sup>2 / (r + 1) + S\<^sup>2 / r"
    using r by (simp add: field_simps power2_eq_square)
  then show ?thesis
    by (simp add: welford_def S_def[symmetric] x_def[symmetric] r_def[symmetric] add.commute[of 1 r])
qed

lemma welford_0 [simp]: "welford X 0 = (0, 0)"
  by (simp add: welford_def)

lemma sample_step_welford_aux:
  "sample_step energy k (e, fst (welford (\<lambda>j. Re (energy ! j)) k), snd (welford (\<lambda>j. Re (energy ! j)) k))
   = (e + Re (energy ! k), fst (welford (\<lambda>j. Re (energy ! j)) (Suc k)),
      snd (welford (\<lambda>j. Re (energy ! j)) (Suc k)))"
  unfolding sample_step_def Let_def prod.case
    welford_mean_step[of "\<lambda>j. Re (energy ! j)" k]
    welford_m2_step[of "\<lambda>j. Re (energy ! j)" k] ..

lemma sample_step_welford:
  "sample_step energy k (e, welford (\<lambda>j. Re (energy ! j)) k)
   = (e + Re (energy ! k), welford (\<lambda>j. Re (energy ! j)) (Suc k))"
  using sample_step_welford_aux[of energy k e] by simp

lemma fold_sample_step:
  assumes "a \<le> b"
  shows "fold (sample_step energy) [a..<b] (e, welford (\<lambda>j. Re (energy ! j)) a)
         = (e + (\<Sum>j = a..<b. Re (energy ! j)), welford (\<lambda>j. Re (energy ! j)) b)"
  using assms
proof (induction b rule: dec_induct)
  case base
  then show ?case by simp
next
  case (step n)
  then show ?case by (simp add: sample_step_welford add.assoc)
qed

lemma block_step_welford:
  "block_step energy bs i
     (fst (welford (block_mean energy bs) i), snd (welford (block_mean energy bs) i),
      welford (\<lambda>j. Re (energy ! j)) (i * bs))
   = (fst (welford (block_mean energy bs) (Suc i)), snd (welford (block_mean energy bs) (Suc i)),
      welford (\<lambda>j. Re (energy ! j)) (Suc i * bs))"
proof -
  let ?X = "\<lambda>j. Re (energy ! j)"
  have le: "i * bs \<le> (i + 1) * bs" by simp
  have f: "fold (sample_step energy) [i * bs..<(i + 1) * bs] (0, fst (welford ?X (i * bs)), snd (welford ?X (i * bs)))
           = (block_mean energy bs i * real bs, fst (welford ?X (Suc i * bs)), snd (welford ?X (Suc i * bs)))"
    if "bs \<noteq> 0"
    using fold_sample_step[OF le, of energy 0] that by (simp add: block_mean_def)
  show ?thesis
  proof (cases "bs = 0")
    case True
    have "block_step energy 0 i (fst (welford (block_mean energy 0) i), snd (welford (block_mean energy 0) i), 0, 0)
          = (fst (welford (block_mean energy 0) i) + (block_mean energy 0 i - fst (welford (block_mean energy 0) i)) / real (i + 1),
             snd (welford (block_mean energy 0) i) + (block_mean energy 0 i - fst (welford (block_mean energy 0) i)) *
               (block_mean energy 0 i - (fst (welford (block_mean energy 0) i) + (block_mean energy 0 i - fst (welford (block_mean energy 0) i)) / real (i + 1))), 0, 0)"
      by (simp add: block_step_def Let_def block_mean_def)
    then show ?thesis
      unfolding welford_mean_step[of "block_mean energy 0" i] welford_m2_step[of "block_mean energy 0" i]
      using True by simp
  next
    case False
    have "block_step energy bs i
            (fst (welford (block_mean energy bs) i), snd (welford (block_mean energy bs) i),
             fst (welford ?X (i * bs)), snd (welford ?X (i * bs)))
          = (fst (welford (block_mean energy bs) i) + (block_mean energy bs i - fst (welford (block_mean energy bs) i)) / real (i + 1),
             snd (welford (block_mean energy bs) i) + (block_mean energy bs i - fst (welford (block_mean energy bs) i)) *
               (block_mean energy bs i - (fst (welford (block_mean energy bs) i) + (block_mean energy bs i - fst (welford (block_mean energy bs) i)) / real (i + 1))),
             fst (welford ?X (Suc i * bs)), snd (welford ?X (Suc i * bs)))"
      unfolding block_step_def Let_def prod.case f[OF False] using False by simp
    then show ?thesis
      unfolding welford_mean_step[of "block_mean energy bs" i] welford_m2_step[of "block_mean energy bs" i]
      by simp
  qed
qed

lemma fold_block_step:
  "fold (block_step energy bs) [0..<m] (0, 0, 0, 0)
   = (fst (welford (block_mean energy bs) m), snd (welford (block_mean energy bs) m),
      welford (\<lambda>j. Re (energy ! j)) (m * bs))"
proof (induction m)
  case 0
  then show ?case by simp
next
  case (Suc m)
  then show ?case by (simp add: block_step_welford del: mult_Suc)
qed

lemma sum_sq_dev_general:
  "(\<Sum>y\<leftarrow>ys. (y - m)\<^sup>2) = (\<Sum>y\<leftarrow>ys. y\<^sup>2) - 2 * m * sum_list ys + real (length ys) * m\<^sup>2"
  for m :: real
  by (induction ys) (simp_all add: power2_eq_square algebra_simps)

lemma sum_sq_dev:
  "(\<Sum>y\<leftarrow>ys. (y - mean ys)\<^sup>2) = (\<Sum>y\<leftarrow>ys. y\<^sup>2) - (sum_list ys)\<^sup>2 / real (length ys)"
proof (cases "ys = []")
  case True
  then show ?thesis by simp
next
  case False
  define S where "S = sum_list ys"
  define n where "n = real (length ys)"
  define Q where "Q = (\<Sum>y\<leftarrow>ys. y\<^sup>2)"
  have n: "n > 0" using False by (simp add: n_def)
  have f1: "n * (S / n)\<^sup>2 = S\<^sup>2 / n"
    using n by (simp add: power2_eq_square)
  have f2: "2 * (S / n) * S = 2 * (S\<^sup>2 / n)"
    by (simp add: power2_eq_square)
  have "(\<Sum>y\<leftarrow>ys. (y - S / n)\<^sup>2) = Q - 2 * (S / n) * S + n * (S / n)\<^sup>2"
    unfolding S_def n_def Q_def by (rule sum_sq_dev_general)
  also have "\<dots> = Q - S\<^sup>2 / n"
    unfolding f1 f2 by simp
  finally show ?thesis
    by (simp add: mean_def S_def n_def Q_def)
qed

lemma sample_variance_alt:
  "sample_variance ys = ((\<Sum>y\<leftarrow>ys. y\<^sup>2) - (sum_list ys)\<^sup>2 / real (length ys)) / (real (length ys) - 1)"
  by (simp add: sample_variance_def sum_sq_dev)

lemma sum_list_map_take_drop:
  assumes "a + m \<le> length xs"
  shows "(\<Sum>x\<leftarrow>take m (drop a xs). g x) = (\<Sum>j = a..<a + m. g (xs ! j))"
proof -
  have "(\<Sum>x\<leftarrow>take m (drop a xs). g x) = (\<Sum>i = 0..<m. g (take m (drop a xs) ! i))"
    using assms by (simp add: sum_list_sum_nth)
  also have "\<dots> = (\<Sum>i = 0..<m. g (xs ! (a + i)))"
    using assms by (intro sum.cong) simp_all
  also have "\<dots> = (\<Sum>j = a..<a + m. g (xs ! j))"
    using sum.shift_bounds_nat_ivl[of "\<lambda>j. g (xs ! j)" 0 a m] by (simp add: add.commute)
  finally show ?thesis .
qed

lemma block_means_eq:
  assumes "50 * (length energy div 50) \<le> length energy"
  shows "block_means energy = map (block_mean energy (length energy div 50)) [0..<50]"
proof -
  let ?bs = "length energy div 50"
  have "mean (take ?bs (drop (i * ?bs) (map Re energy))) = block_mean energy ?bs i" if "i < 50" for i
  proof -
    from that have "i + 1 \<le> 50" by simp
    then have "(i + 1) * ?bs \<le> 50 * ?bs" by (rule mult_le_mono1)
    from this assms have "(i + 1) * ?bs \<le> length energy" by (rule order_trans)
    then have le: "i * ?bs + ?bs \<le> length (map Re energy)"
      by (simp only: length_map add_mult_distrib nat_mult_1)
    have "sum_list (take ?bs (drop (i * ?bs) (map Re energy)))
          = (\<Sum>j = i * ?bs..<i * ?bs + ?bs. map Re energy ! j)"
      using sum_list_map_take_drop[OF le, of "\<lambda>x. x"] by simp
    also have "\<dots> = (\<Sum>j = i * ?bs..<i * ?bs + ?bs. Re (energy ! j))"
      using le by (intro sum.cong) simp_all
    finally have sm: "sum_list (take ?bs (drop (i * ?bs) (map Re energy)))
          = (\<Sum>j = i * ?bs..<i * ?bs + ?bs. Re (energy ! j))" .
    have len: "length (take ?bs (drop (i * ?bs) (map Re energy))) = ?bs"
      using le by simp
    have e: "i * ?bs + ?bs = (i + 1) * ?bs" by simp
    show ?thesis
      unfolding mean_def block_mean_def sm len e ..
  qed
  then show ?thesis by (simp add: block_means_def Let_def)
qed

lemma sum_block_means:
  assumes "bs \<noteq> 0"
  shows "(\<Sum>i<m. block_mean energy bs i) = (\<Sum>j<m * bs. Re (energy ! j)) / real bs"
proof (induction m)
  case 0
  then show ?case by simp
next
  case (Suc m)
  have "(\<Sum>j<Suc m * bs. Re (energy ! j))
        = (\<Sum>j<m * bs. Re (energy ! j)) + (\<Sum>j = m * bs..<(m + 1) * bs. Re (energy ! j))"
    using sum.atLeastLessThan_concat[of 0 "m * bs" "(m + 1) * bs" "\<lambda>j. Re (energy ! j)"]
    by (simp add: atLeast0LessThan)
  then have "(\<Sum>j<Suc m * bs. Re (energy ! j)) / real bs
             = (\<Sum>j<m * bs. Re (energy ! j)) / real bs + block_mean energy bs m"
    by (simp only: block_mean_def add_divide_distrib)
  with Suc.IH show ?case by simp
qed

lemma retained_sums:
  assumes "50 * (length energy div 50) \<le> length energy"
  shows "length (retained energy) = 50 * (length energy div 50)"
    and "(\<Sum>x\<leftarrow>retained energy. g x) = (\<Sum>j<50 * (length energy div 50). g (Re (energy ! j)))"
proof -
  let ?K = "50 * (length energy div 50)"
  show "length (retained energy) = ?K" using assms by (simp add: retained_def)
  have le: "0 + ?K \<le> length (map Re energy)" using assms by simp
  have "(\<Sum>x\<leftarrow>retained energy. g x) = (\<Sum>j = 0..<0 + ?K. g (map Re energy ! j))"
    using sum_list_map_take_drop[OF le, of g] by (simp add: retained_def)
  also have "\<dots> = (\<Sum>j<?K. g (Re (energy ! j)))"
    using assms by (intro sum.cong) (auto simp: atLeast0LessThan)
  finally show "(\<Sum>x\<leftarrow>retained energy. g x) = (\<Sum>j<?K. g (Re (energy ! j)))" .
qed

lemma sum_list_upt_real: "sum_list (map g [0..<n]) = (\<Sum>i<n. g i :: real)"
  by (simp add: interv_sum_list_conv_sum_set_nat atLeast0LessThan)

lemma OutputEnergy_eval:
  "OutputEnergy nspins energy =
     (let bs = length energy div 50;
          b = welford (block_mean energy bs) 50;
          u = welford (\<lambda>j. Re (energy ! j)) (50 * bs)
      in \<lparr>estav = fst b / real nspins,
          esterror = sqrt (snd b / 49 / 50) / real nspins,
          rep_nblocks = 50, rep_blocksize = bs,
          autocorrelation = 0.5 * real bs * (snd b / 49) / (snd u / (real (50 * bs) - 1))\<rparr>)"
  by (simp add: OutputEnergy_def Let_def fold_block_step case_prod_beta)

text \<open>
  Claim C7. For at least 50 energy samples, \<^verbatim>\<open>OutputEnergy\<close> works on the first
  \<open>50 \<cdot> \<lfloor>n/50\<rfloor>\<close> samples in 50 contiguous blocks and reports: the mean energy per
  spin, which is the mean of the retained samples over \<open>N\<close> and also the mean of the 50
  block means over \<open>N\<close>; the standard error per spin, \<open>sqrt(blocked variance / 50) / N\<close>
  with the blocked variance the sample variance (divisor 49) of the block means; and the
  autocorrelation time \<open>0.5 \<cdot> blocksize \<cdot> blocked variance / unblocked variance\<close>, the
  unblocked variance being the sample variance of the retained samples. The samples
  enter through their real parts.
\<close>

theorem OutputEnergy_statistics:
  assumes "50 \<le> length energy"
  shows "length (retained energy) = 50 * (length energy div 50) \<and>
         length (block_means energy) = 50 \<and>
         rep_nblocks (OutputEnergy nspins energy) = 50 \<and>
         rep_blocksize (OutputEnergy nspins energy) = length energy div 50 \<and>
         estav (OutputEnergy nspins energy) = mean (retained energy) / real nspins \<and>
         mean (retained energy) = mean (block_means energy) \<and>
         esterror (OutputEnergy nspins energy)
           = sqrt (sample_variance (block_means energy) / 50) / real nspins \<and>
         autocorrelation (OutputEnergy nspins energy)
           = 0.5 * real (length energy div 50) * sample_variance (block_means energy)
               / sample_variance (retained energy)"
proof -
  let ?bs = "length energy div 50"
  let ?Y = "block_mean energy ?bs"
  let ?X = "\<lambda>j. Re (energy ! j)"
  have K: "50 * ?bs \<le> length energy" by simp
  have bs: "?bs \<noteq> 0" using assms by simp
  have bm: "block_means energy = map ?Y [0..<50]" by (rule block_means_eq[OF K])
  have lb: "length (block_means energy) = 50" by (simp add: bm)
  have sb: "sum_list (block_means energy) = (\<Sum>i<50. ?Y i)"
    by (simp only: bm sum_list_upt_real)
  have sb2: "(\<Sum>y\<leftarrow>block_means energy. y\<^sup>2) = (\<Sum>i<50. (?Y i)\<^sup>2)"
    by (simp only: bm map_map o_def sum_list_upt_real)
  have lr: "length (retained energy) = 50 * ?bs" by (rule retained_sums(1)[OF K])
  have sr: "sum_list (retained energy) = (\<Sum>j<50 * ?bs. ?X j)"
    using retained_sums(2)[OF K, of "\<lambda>x. x"] by simp
  have sr2: "(\<Sum>x\<leftarrow>retained energy. x\<^sup>2) = (\<Sum>j<50 * ?bs. (?X j)\<^sup>2)"
    by (rule retained_sums(2)[OF K])
  have vb: "sample_variance (block_means energy) = snd (welford ?Y 50) / 49"
    by (simp add: sample_variance_alt lb sb sb2 welford_def)
  have vr: "sample_variance (retained energy) = snd (welford ?X (50 * ?bs)) / (real (50 * ?bs) - 1)"
    by (simp only: sample_variance_alt lr sr sr2 welford_def snd_conv)
  have mb: "mean (block_means energy) = fst (welford ?Y 50)"
    by (simp add: mean_def lb sb welford_def)
  have mr: "mean (retained energy) = (\<Sum>j<50 * ?bs. ?X j) / real (50 * ?bs)"
    by (simp only: mean_def lr sr)
  have "(\<Sum>i<50. ?Y i) = (\<Sum>j<50 * ?bs. ?X j) / real ?bs"
    by (rule sum_block_means[OF bs])
  then have "fst (welford ?Y 50) = (\<Sum>j<50 * ?bs. ?X j) / real (50 * ?bs)"
    by (simp add: welford_def)
  then have mm: "mean (retained energy) = mean (block_means energy)"
    by (simp only: mr mb)
  show ?thesis
    unfolding OutputEnergy_eval Let_def
    by (simp only: lr lb vb vr mm mb report.simps) simp?
qed

theorem OutputEnergy_statistics_witness:
  "50 \<le> length demo_energy \<and>
   length (retained demo_energy) = 100 \<and>
   rep_blocksize (OutputEnergy 2 demo_energy) = 2 \<and>
   estav (OutputEnergy 2 demo_energy) = mean (retained demo_energy) / 2 \<and>
   mean (retained demo_energy) = mean (block_means demo_energy) \<and>
   esterror (OutputEnergy 2 demo_energy) = sqrt (sample_variance (block_means demo_energy) / 50) / 2 \<and>
   autocorrelation (OutputEnergy 2 demo_energy)
     = 0.5 * 2 * sample_variance (block_means demo_energy) / sample_variance (retained demo_energy)"
proof -
  have l: "length demo_energy = 100" by (simp add: demo_energy_def)
  then have h: "50 \<le> length demo_energy" by simp
  show ?thesis
    using OutputEnergy_statistics[OF h, of 2] h by (simp add: l)
qed

end
